theory Spec2Isabelle
  imports Complex_Main "HOL-Library.Log_Nat"
begin

section \<open>JavaScript numbers\<close>

text \<open>
  A JavaScript number is an IEEE 754 binary64 value. The finite ones are modelled by the
  rational number they denote: a value \<open>x\<close> with \<open>is_double x\<close>. The two zeros are
  identified (every operation below treats \<open>-0\<close> like \<open>0\<close>: comparison, \<open>Math.floor\<close>
  followed by an array index, \<open>toFixed\<close>). \<open>NaN\<close> and the infinities only appear where
  strings are converted and where a library answers (\<open>jsnum\<close> below); the arithmetic
  of the wheel and of the zodiac sign works on finite values and cannot overflow: a
  remainder by 360, a sum with 360, quotients by 5.625 and by 30, products of an index
  with 5.625.

  Each arithmetic operation computes the exact result and rounds it to the nearest double,
  ties to the even significand (\<open>rnd\<close>). The spacing of doubles around \<open>x\<close> is
  \<open>2 powi ulp_exp x\<close>: 53 significant bits, and \<open>2 powi (- 1074)\<close> in the subnormal range.
\<close>

definition ilog2 :: "rat \<Rightarrow> int" where
  "ilog2 x = (let (p, q) = quotient_of \<bar>x\<bar>; n = bitlen p - bitlen q
              in if 2 powi n \<le> \<bar>x\<bar> then n else n - 1)"

definition ulp_exp :: "rat \<Rightarrow> int" where
  "ulp_exp x = max (ilog2 x - 52) (- 1074)"

definition round_even :: "rat \<Rightarrow> int" where
  "round_even y = (let f = \<lfloor>y\<rfloor>; r = y - of_int f in
     if r < 1 / 2 then f else if 1 / 2 < r then f + 1 else if even f then f else f + 1)"

definition rnd :: "rat \<Rightarrow> rat" where
  "rnd x = (if x = 0 then 0
            else of_int (round_even (x / 2 powi ulp_exp x)) * 2 powi ulp_exp x)"

definition is_double :: "rat \<Rightarrow> bool" where
  "is_double x \<longleftrightarrow> rnd x = x \<and> \<bar>x\<bar> < 2 ^ 1024"

definition js_add :: "rat \<Rightarrow> rat \<Rightarrow> rat" where
  "js_add x y = rnd (x + y)"

definition js_mul :: "rat \<Rightarrow> rat \<Rightarrow> rat" where
  "js_mul x y = rnd (x * y)"

definition js_div :: "rat \<Rightarrow> rat \<Rightarrow> rat" where
  "js_div x y = rnd (x / y)"

definition trunc_rat :: "rat \<Rightarrow> int" where
  "trunc_rat q = (if 0 \<le> q then \<lfloor>q\<rfloor> else \<lceil>q\<rceil>)"

text \<open>The operator \<open>%\<close>: the remainder has the sign of the dividend.\<close>

definition js_rem :: "rat \<Rightarrow> rat \<Rightarrow> rat" where
  "js_rem x y = rnd (x - y * of_int (trunc_rat (x / y)))"

definition Math_floor :: "rat \<Rightarrow> int" where
  "Math_floor x = \<lfloor>x\<rfloor>"

text \<open>
  \<open>arr[i]\<close> for an integral number \<open>i\<close>: the element, or \<open>undefined\<close> (\<open>None\<close>)
  outside the array.
\<close>

definition js_index :: "'a list \<Rightarrow> int \<Rightarrow> 'a option" where
  "js_index xs i = (if 0 \<le> i \<and> i < int (length xs) then Some (xs ! nat i) else None)"

text \<open>\<open>arr.indexOf(v)\<close>: the first position of \<open>v\<close>, or \<open>-1\<close>.\<close>

fun indexOf :: "'a list \<Rightarrow> 'a \<Rightarrow> int" where
  "indexOf [] v = - 1"
| "indexOf (x # xs) v =
     (if x = v then 0 else (let i = indexOf xs v in if i = - 1 then - 1 else i + 1))"

text \<open>The decimal digits of a natural number.\<close>

fun digits :: "nat \<Rightarrow> string" where
  "digits n = (if n < 10 then [''0123456789'' ! n]
               else digits (n div 10) @ [''0123456789'' ! (n mod 10)])"

declare digits.simps [simp del]

text \<open>
  \<open>x.toFixed(f)\<close> for \<open>\<bar>x\<bar> < 10^21\<close>: the integer \<open>n\<close> with \<open>n / 10^f\<close> nearest to the
  exact value of \<open>x\<close> (the larger one of two), written with \<open>f\<close> digits after the point.
\<close>

definition toFixed :: "rat \<Rightarrow> nat \<Rightarrow> string" where
  "toFixed x f =
     (let s = (if x < 0 then ''-'' else '''');
          n = nat \<lfloor>\<bar>x\<bar> * 10 ^ f + 1 / 2\<rfloor>;
          m = digits n;
          m' = (if length m \<le> f then replicate (f + 1 - length m) (CHR ''0'') @ m else m);
          k = length m' - f
      in s @ (if f = 0 then m' else take k m' @ ''.'' @ drop k m'))"

section \<open>Strings as numbers\<close>

text \<open>
  \<open>Number(str)\<close> and the implicit conversion of a string operand follow the grammar of
  ECMAScript's \<open>StringNumericLiteral\<close>: surrounding white space is dropped, the empty
  string is 0, then a signed decimal literal (with optional fraction and exponent),
  \<open>Infinity\<close>, or an unsigned binary, octal or hexadecimal integer; anything else is
  \<open>NaN\<close>. The exact value is rounded to the nearest double. Strings are ASCII here.
\<close>

datatype jsnum = NaN | PosInfinity | NegInfinity | Num rat

definition toDouble :: "rat \<Rightarrow> jsnum" where
  "toDouble v =
     (let r = rnd v in
      if 2 ^ 1024 \<le> r then PosInfinity
      else if r \<le> - (2 ^ 1024) then NegInfinity
      else Num r)"

definition isWhiteSpace :: "char \<Rightarrow> bool" where
  "isWhiteSpace c \<longleftrightarrow>
     c \<in> set [CHR 0x09, CHR 0x0A, CHR 0x0B, CHR 0x0C, CHR 0x0D, CHR '' '']"

definition trim :: "string \<Rightarrow> string" where
  "trim s = rev (dropWhile isWhiteSpace (rev (dropWhile isWhiteSpace s)))"

definition isDigit :: "char \<Rightarrow> bool" where
  "isDigit c \<longleftrightarrow> c \<in> set ''0123456789''"

definition digitValue :: "char \<Rightarrow> nat" where
  "digitValue c =
     (let i = indexOf ''0123456789abcdef'' c; j = indexOf ''0123456789ABCDEF'' c
      in if 0 \<le> i then nat i else if 0 \<le> j then nat j else 16)"

definition digitsValue :: "nat \<Rightarrow> string \<Rightarrow> nat" where
  "digitsValue base ds = foldl (\<lambda>a c. base * a + digitValue c) 0 ds"

text \<open>The optional exponent part that ends a decimal literal; \<open>None\<close> when malformed.\<close>

definition exponentPart :: "string \<Rightarrow> int option" where
  "exponentPart s =
     (case s of
        [] \<Rightarrow> Some 0
      | c # r \<Rightarrow>
          if c = CHR ''e'' \<or> c = CHR ''E'' then
            (let (sgn, ds) =
               (case r of
                  [] \<Rightarrow> (1, r)
                | d # r' \<Rightarrow> if d = CHR ''-'' then (- 1, r')
                            else if d = CHR ''+'' then (1, r') else (1, r))
             in if ds \<noteq> [] \<and> list_all isDigit ds
                then Some (sgn * int (digitsValue 10 ds)) else None)
          else None)"

text \<open>The exact value of an unsigned decimal literal; \<open>None\<close> when the text is not one.\<close>

definition unsignedDecimal :: "string \<Rightarrow> rat option" where
  "unsignedDecimal s =
     (let ip = takeWhile isDigit s;
          r1 = dropWhile isDigit s;
          (fp, r2) =
            (case r1 of
               [] \<Rightarrow> ([], [])
             | c # r \<Rightarrow> if c = CHR ''.'' then (takeWhile isDigit r, dropWhile isDigit r)
                         else ([], r1))
      in if ip = [] \<and> fp = [] then None
         else (case exponentPart r2 of
                 None \<Rightarrow> None
               | Some e \<Rightarrow>
                   Some ((of_nat (digitsValue 10 ip)
                          + of_nat (digitsValue 10 fp) / 10 ^ length fp) * 10 powi e)))"

definition radixLiteral :: "string \<Rightarrow> rat option" where
  "radixLiteral s =
     (case s of
        c0 # c1 # ds \<Rightarrow>
          (let base = (if c1 \<in> set ''xX'' then 16 else if c1 \<in> set ''oO'' then 8
                       else if c1 \<in> set ''bB'' then 2 else 0)
           in if c0 = CHR ''0'' \<and> base \<noteq> 0 \<and> ds \<noteq> []
                 \<and> list_all (\<lambda>d. digitValue d < base) ds
              then Some (of_nat (digitsValue base ds)) else None)
      | _ \<Rightarrow> None)"

definition Number :: "string \<Rightarrow> jsnum" where
  "Number str =
     (let s = trim str in
      if s = [] then Num 0
      else (case radixLiteral s of
              Some v \<Rightarrow> toDouble v
            | None \<Rightarrow>
                (let (neg, u) =
                   (case s of
                      [] \<Rightarrow> (False, s)
                    | c # r \<Rightarrow> if c = CHR ''-'' then (True, r)
                                else if c = CHR ''+'' then (False, r) else (False, s))
                 in if u = ''Infinity'' then (if neg then NegInfinity else PosInfinity)
                    else (case unsignedDecimal u of
                            None \<Rightarrow> NaN
                          | Some v \<Rightarrow> toDouble (if neg then - v else v)))))"

text \<open>The comparisons \<open><\<close> and \<open><=\<close> on numbers: false as soon as one side is \<open>NaN\<close>.\<close>

fun js_less :: "jsnum \<Rightarrow> jsnum \<Rightarrow> bool" where
  "js_less NaN _ = False"
| "js_less _ NaN = False"
| "js_less (Num a) (Num b) = (a < b)"
| "js_less PosInfinity _ = False"
| "js_less _ PosInfinity = True"
| "js_less _ NegInfinity = False"
| "js_less NegInfinity _ = True"

fun js_le :: "jsnum \<Rightarrow> jsnum \<Rightarrow> bool" where
  "js_le NaN _ = False"
| "js_le _ NaN = False"
| "js_le a b = (\<not> js_less b a)"

section \<open>The Gene Key wheel (utils/mapToGeneKey.js)\<close>

datatype error = Error string | TypeError | RangeError

definition GENE_KEY_WHEEL :: "int list" where
  "GENE_KEY_WHEEL =
    [13, 49, 30, 55, 37, 63, 22, 36,
     25, 17, 21, 51, 42, 3, 27, 24,
     2, 23, 8, 20, 16, 35, 45, 12,
     15, 52, 39, 53, 62, 56, 31, 33,
     7, 4, 29, 59, 40, 64, 47, 6,
     46, 18, 48, 57, 32, 50, 28, 44,
     1, 43, 14, 34, 9, 5, 26, 11,
     10, 58, 38, 54, 61, 60, 41, 19]"

definition segmentSize :: rat where
  "segmentSize = js_div 360 64"

text \<open>
  \<open>mapLongitudeToGeneKey\<close>, with its local variables \<open>normalizedLongitude\<close> and
  \<open>segmentIndex\<close> as functions of the argument. The result \<open>None\<close> is \<open>undefined\<close>.
\<close>

definition normalizedLongitude :: "rat \<Rightarrow> rat" where
  "normalizedLongitude longitude =
     (let n = js_rem longitude 360 in if n < 0 then js_add n 360 else n)"

definition segmentIndex :: "rat \<Rightarrow> int" where
  "segmentIndex longitude = Math_floor (js_div (normalizedLongitude longitude) segmentSize)"

definition mapLongitudeToGeneKey :: "rat \<Rightarrow> int option" where
  "mapLongitudeToGeneKey longitude = js_index GENE_KEY_WHEEL (segmentIndex longitude)"

record GeneKeyRange =
  start :: string
  end' :: string
  geneKey :: int

definition getGeneKeyDegreeRange :: "int \<Rightarrow> error + GeneKeyRange" where
  "getGeneKeyDegreeRange geneKeyNumber =
     (let index = indexOf GENE_KEY_WHEEL geneKeyNumber in
      if index = - 1 then Inl (Error ''Invalid Gene Key number'')
      else Inr \<lparr>start = toFixed (js_mul (of_int index) segmentSize) 2,
                end' = toFixed (js_mul (of_int (index + 1)) segmentSize) 2,
                geneKey = geneKeyNumber\<rparr>)"

record Segment =
  seg_geneKey :: int
  seg_start :: rat
  seg_end :: rat
  seg_index :: nat

definition getAllGeneKeySegments :: "Segment list" where
  "getAllGeneKeySegments =
     map (\<lambda>(index, geneKey).
            \<lparr>seg_geneKey = geneKey,
             seg_start = js_mul (of_nat index) segmentSize,
             seg_end = js_mul (of_nat (index + 1)) segmentSize,
             seg_index = index\<rparr>)
         (enumerate 0 GENE_KEY_WHEEL)"

section \<open>The zodiac sign (utils/suncalc.js)\<close>

text \<open>\<open>getZodiacSign\<close>; the array \<open>signs\<close> is its local constant.\<close>

definition signs :: "string list" where
  "signs = [''Aries'', ''Taurus'', ''Gemini'', ''Cancer'', ''Leo'', ''Virgo'',
            ''Libra'', ''Scorpio'', ''Sagittarius'', ''Capricorn'', ''Aquarius'', ''Pisces'']"

definition getZodiacSign :: "rat \<Rightarrow> string option" where
  "getZodiacSign longitude = js_index signs (Math_floor (js_div longitude 30))"


section \<open>Strings, arrays and dates of JavaScript\<close>

text \<open>\<open>str.split(sep)\<close> for a separator of one character.\<close>

fun split :: "char \<Rightarrow> string \<Rightarrow> string list" where
  "split sep [] = [[]]"
| "split sep (c # cs) =
     (if c = sep then [] # split sep cs
      else (case split sep cs of [] \<Rightarrow> [[c]] | p # ps \<Rightarrow> (c # p) # ps))"

text \<open>
  A destructured array element is a number or \<open>undefined\<close> (\<open>None\<close>). \<open>ToNumber\<close> turns
  \<open>undefined\<close> into \<open>NaN\<close>; \<open>!v\<close> holds for \<open>undefined\<close>, \<open>NaN\<close> and zero.
\<close>

definition ToNumber :: "jsnum option \<Rightarrow> jsnum" where
  "ToNumber v = (case v of None \<Rightarrow> NaN | Some n \<Rightarrow> n)"

definition falsy :: "jsnum option \<Rightarrow> bool" where
  "falsy v \<longleftrightarrow> v = None \<or> v = Some NaN \<or> v = Some (Num 0)"

definition isNaN :: "jsnum option \<Rightarrow> bool" where
  "isNaN v \<longleftrightarrow> ToNumber v = NaN"

fun js_sub :: "jsnum \<Rightarrow> jsnum \<Rightarrow> jsnum" where
  "js_sub (Num a) (Num b) = toDouble (a - b)"
| "js_sub NaN _ = NaN"
| "js_sub _ NaN = NaN"
| "js_sub PosInfinity PosInfinity = NaN"
| "js_sub NegInfinity NegInfinity = NaN"
| "js_sub PosInfinity _ = PosInfinity"
| "js_sub NegInfinity _ = NegInfinity"
| "js_sub _ PosInfinity = NegInfinity"
| "js_sub _ NegInfinity = PosInfinity"

text \<open>
  The abstract operations of ECMAScript's \<open>Date\<close>. A time value is a number of
  milliseconds since 1970-01-01T00:00Z, an integer here (\<open>None\<close> is the time value
  \<open>NaN\<close> of an invalid date). \<open>days_from_civil\<close> and \<open>civil_from_days\<close> compute the
  day number of a date of the proleptic Gregorian calendar and back, which is what
  \<open>MakeDay\<close>, \<open>YearFromTime\<close>, \<open>MonthFromTime\<close> and \<open>DateFromTime\<close> specify.
\<close>

definition msPerDay :: int where
  "msPerDay = 86400000"

definition days_from_civil :: "int \<Rightarrow> int \<Rightarrow> int \<Rightarrow> int" where
  "days_from_civil y m d =
     (let y' = (if m \<le> 2 then y - 1 else y);
          era = y' div 400;
          yoe = y' - era * 400;
          doy = (153 * (if 2 < m then m - 3 else m + 9) + 2) div 5 + d - 1;
          doe = yoe * 365 + yoe div 4 - yoe div 100 + doy
      in era * 146097 + doe - 719468)"

definition civil_from_days :: "int \<Rightarrow> int \<times> int \<times> int" where
  "civil_from_days z =
     (let z' = z + 719468;
          era = z' div 146097;
          doe = z' - era * 146097;
          yoe = (doe - doe div 1460 + doe div 36524 - doe div 146096) div 365;
          y = yoe + era * 400;
          doy = doe - (365 * yoe + yoe div 4 - yoe div 100);
          mp = (5 * doy + 2) div 153;
          d = doy - (153 * mp + 2) div 5 + 1;
          m = (if mp < 10 then mp + 3 else mp - 9)
      in (if m \<le> 2 then y + 1 else y, m, d))"

definition Day :: "int \<Rightarrow> int" where
  "Day t = t div msPerDay"

definition YearFromTime :: "int \<Rightarrow> int" where
  "YearFromTime t = fst (civil_from_days (Day t))"

definition MonthFromTime :: "int \<Rightarrow> int" where
  "MonthFromTime t = fst (snd (civil_from_days (Day t))) - 1"

definition DateFromTime :: "int \<Rightarrow> int" where
  "DateFromTime t = snd (snd (civil_from_days (Day t)))"

definition HourFromTime :: "int \<Rightarrow> int" where
  "HourFromTime t = (t div 3600000) mod 24"

definition MinFromTime :: "int \<Rightarrow> int" where
  "MinFromTime t = (t div 60000) mod 60"

definition SecFromTime :: "int \<Rightarrow> int" where
  "SecFromTime t = (t div 1000) mod 60"


definition ToIntegerFinite :: "jsnum \<Rightarrow> int option" where
  "ToIntegerFinite v = (case v of Num x \<Rightarrow> Some (trunc_rat x) | _ \<Rightarrow> None)"

definition MakeFullYear :: "jsnum \<Rightarrow> jsnum" where
  "MakeFullYear year =
     (case year of
        Num x \<Rightarrow> (let t = trunc_rat x in
                   if 0 \<le> t \<and> t \<le> 99 then Num (of_int (1900 + t)) else Num (of_int t))
      | _ \<Rightarrow> year)"

definition MakeDay :: "jsnum \<Rightarrow> jsnum \<Rightarrow> jsnum \<Rightarrow> int option" where
  "MakeDay year month date =
     (case (ToIntegerFinite year, ToIntegerFinite month, ToIntegerFinite date) of
        (Some y, Some m, Some dt) \<Rightarrow>
          Some (days_from_civil (y + m div 12) (m mod 12 + 1) 1 + dt - 1)
      | _ \<Rightarrow> None)"

definition MakeTime :: "jsnum \<Rightarrow> jsnum \<Rightarrow> jsnum \<Rightarrow> jsnum \<Rightarrow> int option" where
  "MakeTime hour minute sec ms =
     (case (ToIntegerFinite hour, ToIntegerFinite minute, ToIntegerFinite sec,
            ToIntegerFinite ms) of
        (Some h, Some m, Some s, Some milli) \<Rightarrow>
          Some (h * 3600000 + m * 60000 + s * 1000 + milli)
      | _ \<Rightarrow> None)"

definition MakeDate :: "int option \<Rightarrow> int option \<Rightarrow> int option" where
  "MakeDate day time =
     (case (day, time) of (Some d, Some t) \<Rightarrow> Some (d * msPerDay + t) | _ \<Rightarrow> None)"

definition TimeClip :: "int \<Rightarrow> int option" where
  "TimeClip t = (if \<bar>t\<bar> \<le> 8640000000000000 then Some t else None)"

text \<open>\<open>Date.UTC(year, month, date, hours, minutes, seconds)\<close>.\<close>

definition Date_UTC ::
  "jsnum \<Rightarrow> jsnum \<Rightarrow> jsnum \<Rightarrow> jsnum \<Rightarrow> jsnum \<Rightarrow> jsnum \<Rightarrow> int option" where
  "Date_UTC year month date hours minutes seconds =
     (case MakeDate (MakeDay (MakeFullYear year) month date)
                    (MakeTime hours minutes seconds (Num 0)) of
        None \<Rightarrow> None
      | Some t \<Rightarrow> TimeClip t)"

text \<open>
  The environment of the process: the offset of the host's time zone (milliseconds east
  of UTC, taken as constant), the time zone database behind \<open>Intl\<close> (for a known
  identifier, the offset of local time at a UTC instant), what the implementation's own
  date parser answers for a text that is not in the ISO format, the ephemeris library
  (\<open>Astronomy.Ecliptic(d).elon\<close> of astronomy-engine), the reference table
  \<open>data/genekeys.json\<close>, and \<open>Math.sin\<close>, whose result ECMAScript leaves to the
  implementation (a double for a finite argument).
\<close>

record GeneKeyInfo =
  shadow :: string
  gift :: string
  siddhi :: string

record env =
  hostOffset :: int
  zones :: "string \<Rightarrow> (int \<Rightarrow> int) option"
  fallbackDateValid :: "jsnum option list \<Rightarrow> bool"
  Ecliptic_elon :: "int option \<Rightarrow> error + jsnum"
  geneKeysData :: "int \<Rightarrow> GeneKeyInfo option"
  Math_sin :: "rat \<Rightarrow> rat"

text \<open>\<open>new Date(year, month, date, hours, minutes)\<close>, in the host's local time.\<close>

definition Date_local ::
  "env \<Rightarrow> jsnum \<Rightarrow> jsnum \<Rightarrow> jsnum \<Rightarrow> jsnum \<Rightarrow> jsnum \<Rightarrow> int option" where
  "Date_local e year month date hours minutes =
     (case MakeDate (MakeDay (MakeFullYear year) month date)
                    (MakeTime hours minutes (Num 0) (Num 0)) of
        None \<Rightarrow> None
      | Some t \<Rightarrow> TimeClip (t - hostOffset e))"

definition getMonth :: "env \<Rightarrow> int \<Rightarrow> int" where
  "getMonth e t = MonthFromTime (t + hostOffset e)"

section \<open>Civil time (utils/timezone.js)\<close>

record Validation =
  valid :: bool
  error :: "string option"

definition invalid :: "string \<Rightarrow> Validation" where
  "invalid msg = \<lparr>valid = False, error = Some msg\<rparr>"

text \<open>
  \<open>validateDateTime\<close>. An argument that is \<open>undefined\<close> (\<open>None\<close>) makes \<open>split\<close> throw
  a \<open>TypeError\<close>, which the function catches. The parameter \<open>timezone\<close> is not used.
\<close>

definition validateDateTime :: "env \<Rightarrow> string option \<Rightarrow> string option \<Rightarrow> Validation" where
  "validateDateTime e date time =
     (case (date, time) of
        (Some d, Some t) \<Rightarrow>
          (let ds = map Number (split (CHR ''-'') d);
               ts = map Number (split (CHR '':'') t);
               year = js_index ds 0; month = js_index ds 1; day = js_index ds 2;
               hours = js_index ts 0; minutes = js_index ts 1
           in if falsy year \<or> falsy month \<or> falsy day \<or> isNaN hours \<or> isNaN minutes
              then invalid ''Invalid date or time format''
              else if js_less (ToNumber month) (Num 1) \<or> js_less (Num 12) (ToNumber month)
              then invalid ''Month must be between 1 and 12''
              else if js_less (ToNumber day) (Num 1) \<or> js_less (Num 31) (ToNumber day)
              then invalid ''Day must be between 1 and 31''
              else if js_less (ToNumber hours) (Num 0) \<or> js_less (Num 23) (ToNumber hours)
              then invalid ''Hour must be between 0 and 23''
              else if js_less (ToNumber minutes) (Num 0) \<or> js_less (Num 59) (ToNumber minutes)
              then invalid ''Minute must be between 0 and 59''
              else (case Date_local e (ToNumber year) (js_sub (ToNumber month) (Num 1))
                                    (ToNumber day) (ToNumber hours) (ToNumber minutes) of
                      None \<Rightarrow> invalid ''Invalid date/time combination''
                    | Some testDate \<Rightarrow>
                        if Num (of_int (getMonth e testDate)) \<noteq> js_sub (ToNumber month) (Num 1)
                        then invalid ''Invalid day for the given month''
                        else \<lparr>valid = True, error = None\<rparr>))
      | _ \<Rightarrow> invalid ''Failed to validate date/time'')"

text \<open>
  \<open>convertLocalToUTC\<close>. Its unused locals can still throw: the \<open>Intl.DateTimeFormat\<close>
  constructor throws a \<open>RangeError\<close> for an unknown time zone, and \<open>formatter.format\<close>
  throws one when \<open>dateString + 'Z'\<close> is not a date. That text is in the ISO format
  \<open>YYYY-MM-DDTHH:mm:00Z\<close> when the five components are integers, the year has four
  digits and the others are a month, a day of that month, an hour and a minute; any other
  text is left to the implementation's parser (\<open>fallbackDateValid\<close>).

  \<open>localAsUTC.toLocaleString('en-US', {timeZone})\<close> prints the wall clock of the instant in
  the zone, and \<open>new Date\<close> of that text reads it back as a local time of the host.
\<close>

definition isInteger :: "jsnum \<Rightarrow> bool" where
  "isInteger v = (case v of Num x \<Rightarrow> of_int \<lfloor>x\<rfloor> = x | _ \<Rightarrow> False)"

definition daysInMonth :: "int \<Rightarrow> int \<Rightarrow> int" where
  "daysInMonth y m =
     days_from_civil (if m = 12 then y + 1 else y) (if m = 12 then 1 else m + 1) 1
     - days_from_civil y m 1"

definition dateStringValid :: "env \<Rightarrow> jsnum option list \<Rightarrow> bool" where
  "dateStringValid e cs =
     (case map (map_option ToIntegerFinite) cs of
        [Some (Some y), Some (Some m), Some (Some d), Some (Some h), Some (Some mi)] \<Rightarrow>
          if list_all (\<lambda>c. isInteger (ToNumber c)) cs
             \<and> 1000 \<le> y \<and> y \<le> 9999 \<and> 1 \<le> m \<and> m \<le> 12
             \<and> 1 \<le> d \<and> d \<le> daysInMonth y m
             \<and> 0 \<le> h \<and> h \<le> 23 \<and> 0 \<le> mi \<and> mi \<le> 59
          then True else fallbackDateValid e cs
      | _ \<Rightarrow> fallbackDateValid e cs)"

definition convertLocalToUTC :: "env \<Rightarrow> string \<Rightarrow> string \<Rightarrow> string \<Rightarrow> error + int option" where
  "convertLocalToUTC e date time timezone =
     (let ds = map Number (split (CHR ''-'') date);
          ts = map Number (split (CHR '':'') time);
          year = js_index ds 0; month = js_index ds 1; day = js_index ds 2;
          hours = js_index ts 0; minutes = js_index ts 1
      in case zones e timezone of
           None \<Rightarrow> Inl RangeError
         | Some zone \<Rightarrow>
             if \<not> dateStringValid e [year, month, day, hours, minutes] then Inl RangeError
             else (case Date_UTC (ToNumber year) (js_sub (ToNumber month) (Num 1))
                                 (ToNumber day) (ToNumber hours) (ToNumber minutes) (Num 0) of
                     None \<Rightarrow> Inr None
                   | Some localAsUTC \<Rightarrow>
                       (let localInTzDate = localAsUTC + zone localAsUTC - hostOffset e;
                            offset = localAsUTC - localInTzDate;
                            utcDateTime = TimeClip (localAsUTC - offset)
                        in Inr utcDateTime)))"

section \<open>The simplified ephemeris (an earlier utils/suncalc.js, with routes/api.js)\<close>

text \<open>
  The route of routes/api.js builds the date from the texts with \<open>Date.UTC\<close>, taking
  them as UTC.
\<close>

definition birthDate :: "string \<Rightarrow> string \<Rightarrow> int option" where
  "birthDate date time =
     (let ds = map Number (split (CHR ''-'') date);
          ts = map Number (split (CHR '':'') time);
          year = js_index ds 0; month = js_index ds 1; day = js_index ds 2;
          hours = js_index ts 0; minutes = js_index ts 1
      in Date_UTC (ToNumber year) (js_sub (ToNumber month) (Num 1)) (ToNumber day)
                  (ToNumber hours) (ToNumber minutes) (Num 0))"

text \<open>
  \<open>getJulianDayNumber\<close> and \<open>calculateSunLongitude\<close> of the analytic formula, for a
  valid date with time value \<open>t\<close>. The getters of \<open>Date\<close> read the local time of the
  host. Sums, differences and products of the calendar integers are exact in doubles
  (all are far below \<open>2^53\<close>) and are computed on integers; every other operation
  rounds. A decimal literal is the double nearest to it, \<open>Math.PI\<close> the double nearest
  to \<open>pi\<close>.
\<close>

definition js_minus :: "rat \<Rightarrow> rat \<Rightarrow> rat" where
  "js_minus x y = rnd (x - y)"

definition Math_PI :: rat where
  "Math_PI = 884279719003555 / 2 ^ 48"

definition getJulianDayNumber :: "env \<Rightarrow> int \<Rightarrow> rat" where
  "getJulianDayNumber e t =
     (let lt = t + hostOffset e;
          month = MonthFromTime lt;
          a = Math_floor (js_div (of_int (14 - (month + 1))) 12);
          y = YearFromTime lt + 4800 - a;
          m = (month + 1) + 12 * a - 3;
          jdn = DateFromTime lt + Math_floor (js_div (of_int (153 * m + 2)) 5) + 365 * y
                + Math_floor (js_div (of_int y) 4) - Math_floor (js_div (of_int y) 100)
                + Math_floor (js_div (of_int y) 400) - 32045;
          hours = js_add (js_add (of_int (HourFromTime lt))
                                 (js_div (of_int (MinFromTime lt)) 60))
                         (js_div (of_int (SecFromTime lt)) 3600)
      in js_add (of_int jdn) (js_div (js_minus hours 12) 24))"

definition calculateSunLongitude :: "env \<Rightarrow> int \<Rightarrow> rat" where
  "calculateSunLongitude e t =
     (let jd = getJulianDayNumber e t;
          n = js_minus jd 2451545.0;
          L0 = js_rem (js_add (rnd 280.460) (js_mul (rnd 0.9856474) n)) 360;
          L = (if L0 < 0 then js_add L0 360 else L0);
          g0 = js_rem (js_add (rnd 357.528) (js_mul (rnd 0.9856003) n)) 360;
          g = (if g0 < 0 then js_add g0 360 else g0);
          gRad = js_div (js_mul g Math_PI) 180;
          lambda0 = js_add (js_add L (js_mul (rnd 1.915) (Math_sin e gRad)))
                           (js_mul (rnd 0.020) (Math_sin e (js_mul 2 gRad)));
          lambda = js_rem lambda0 360
      in if lambda < 0 then js_add lambda 360 else lambda)"

text \<open>
  The mean anomaly in radians that the formula computes at J2000.0 (where \<open>n = 0\<close>),
  and what it means that \<open>Math.sin\<close> is accurate at an argument.
\<close>

definition gRad_j2000 :: rat where
  "gRad_j2000 = js_div (js_mul (rnd 357.528) Math_PI) 180"

definition sin_accurate :: "env \<Rightarrow> rat \<Rightarrow> bool" where
  "sin_accurate e x \<longleftrightarrow> \<bar>real_of_rat (Math_sin e x) - sin (real_of_rat x)\<bar> \<le> 1 / 10 ^ 4"

section \<open>The pipeline of the route /sunkey (routes/api.js)\<close>




definition getZodiacSign_num :: "jsnum \<Rightarrow> string option" where
  "getZodiacSign_num v = (case v of Num x \<Rightarrow> getZodiacSign x | _ \<Rightarrow> None)"

record Location =
  city :: string
  country :: string
  latitude :: rat
  longitude :: rat
  timezone :: string
  source :: string










text \<open>
  An example environment: a host in UTC; the zones \<open>UTC\<close> and \<open>America/New_York\<close>, the
  latter with its rules of the year 2000 (UTC-5, and UTC-4 from 2000-04-02T07:00Z to
  2000-10-29T06:00Z); a parser that rejects every text outside the ISO format; an
  ephemeris that answers the double 280.375030517578125 for every date; a reference
  table with empty texts; and a \<open>Math.sin\<close> that is given at the two arguments met at
  J2000.0, by the doubles nearest to the sines (it answers 0 elsewhere).
\<close>

definition new_york_2000 :: "int \<Rightarrow> int" where
  "new_york_2000 t =
     (if 954658800000 \<le> t \<and> t < 972799200000 then - 14400000 else - 18000000)"

definition example_env :: env where
  "example_env =
     \<lparr>hostOffset = 0,
      zones = (\<lambda>z. if z = ''UTC'' then Some (\<lambda>t. 0)
                  else if z = ''America/New_York'' then Some new_york_2000
                  else None),
      fallbackDateValid = (\<lambda>cs. False),
      Ecliptic_elon = (\<lambda>d. Inr (Num (9187329 / 2 ^ 15))),
      geneKeysData = (\<lambda>k. Some \<lparr>shadow = [], gift = [], siddhi = []\<rparr>),
      Math_sin = (\<lambda>x. if x = 109775958116633 / 2 ^ 44 then - (6215854530937775 / 2 ^ 57)
                       else if x = 109775958116633 / 2 ^ 43 then - (194064692912115 / 2 ^ 51)
                       else 0)\<rparr>"






section \<open>Rounding to the nearest double\<close>

lemma pow2_less_iff [simp]: "(2::rat) powi a < 2 powi b \<longleftrightarrow> a < b"
proof
  assume h: "(2::rat) powi a < 2 powi b"
  show "a < b"
  proof (rule ccontr)
    assume "\<not> a < b"
    then have "(2::rat) powi b \<le> 2 powi a" by (intro power_int_increasing) auto
    with h show False by simp
  qed
next
  assume "a < b"
  then show "(2::rat) powi a < 2 powi b" by (intro power_int_strict_increasing) auto
qed

lemma pow2_le_iff [simp]: "(2::rat) powi a \<le> 2 powi b \<longleftrightarrow> a \<le> b"
  using pow2_less_iff[of b a] by (auto simp: not_less[symmetric] simp del: pow2_less_iff)

lemma pow2_pos [simp]: "(0::rat) < 2 powi a"
  by simp

lemma ilog2_bounds:
  assumes "x \<noteq> 0"
  shows "2 powi ilog2 x \<le> \<bar>x\<bar>" and "\<bar>x\<bar> < 2 powi (ilog2 x + 1)"
proof -
  obtain p q where pq: "quotient_of \<bar>x\<bar> = (p, q)" by (cases "quotient_of \<bar>x\<bar>")
  have q: "0 < q" using pq by (rule quotient_of_denom_pos)
  have xe: "\<bar>x\<bar> = of_int p / of_int q" using pq by (rule quotient_of_div)
  have "0 < \<bar>x\<bar>" using assms by simp
  then have p: "0 < p" using q xe by (simp add: zero_less_divide_iff)
  define n where "n = bitlen p - bitlen q"
  have bp: "2 ^ nat (bitlen p - 1) \<le> p" "p < 2 ^ nat (bitlen p)"
    using bitlen_bounds[OF p] by auto
  have bq: "2 ^ nat (bitlen q - 1) \<le> q" "q < 2 ^ nat (bitlen q)"
    using bitlen_bounds[OF q] by auto
  have p1: "1 \<le> bitlen p" using p by (auto simp: bitlen_alt_def)
  have q1: "1 \<le> bitlen q" using q by (auto simp: bitlen_alt_def)
  have "(of_int (2 ^ nat (bitlen p - 1)) :: rat) \<le> of_int p"
       "(of_int p :: rat) < of_int (2 ^ nat (bitlen p))"
    using bp by (simp_all only: of_int_le_iff of_int_less_iff)
  then have rp: "(2::rat) powi (bitlen p - 1) \<le> of_int p" "(of_int p :: rat) < 2 powi bitlen p"
    using p1 by (simp_all add: power_int_nonneg_exp)
  have "(of_int (2 ^ nat (bitlen q - 1)) :: rat) \<le> of_int q"
       "(of_int q :: rat) < of_int (2 ^ nat (bitlen q))"
    using bq by (simp_all only: of_int_le_iff of_int_less_iff)
  then have rq: "(2::rat) powi (bitlen q - 1) \<le> of_int q" "(of_int q :: rat) < 2 powi bitlen q"
    using q1 by (simp_all add: power_int_nonneg_exp)
  have qr: "(0::rat) < of_int q" using q by simp
  have split1: "(2::rat) powi (n + 1) = 2 powi bitlen p / 2 powi (bitlen q - 1)"
    by (simp add: n_def power_int_diff[symmetric] algebra_simps)
  have split2: "(2::rat) powi (n - 1) = 2 powi (bitlen p - 1) / 2 powi bitlen q"
    by (simp add: n_def power_int_diff[symmetric] algebra_simps)
  have up: "\<bar>x\<bar> < 2 powi (n + 1)"
    unfolding xe split1
    by (rule frac_less) (use rp rq qr p in \<open>simp_all add: less_imp_le\<close>)
  have lo: "2 powi (n - 1) < \<bar>x\<bar>"
    unfolding xe split2
    by (rule frac_less2) (use rp rq qr p in \<open>simp_all add: less_imp_le\<close>)
  have il: "ilog2 x = (if 2 powi n \<le> \<bar>x\<bar> then n else n - 1)"
    by (simp add: ilog2_def pq n_def Let_def)
  show "2 powi ilog2 x \<le> \<bar>x\<bar>" using lo by (simp add: il)
  show "\<bar>x\<bar> < 2 powi (ilog2 x + 1)" using up by (auto simp add: il)
qed

lemma ilog2_eqI:
  assumes "2 powi n \<le> \<bar>x\<bar>" and "\<bar>x\<bar> < 2 powi (n + 1)"
  shows "ilog2 x = n"
proof -
  have "(0::rat) < 2 powi n" by simp
  then have "0 < \<bar>x\<bar>" using assms(1) by (rule less_le_trans)
  then have x: "x \<noteq> 0" by simp
  have "(2::rat) powi ilog2 x < 2 powi (n + 1)"
    using ilog2_bounds(1)[OF x] assms(2) by linarith
  then have a: "ilog2 x < n + 1" by (simp only: pow2_less_iff)
  have "(2::rat) powi n < 2 powi (ilog2 x + 1)"
    using ilog2_bounds(2)[OF x] assms(1) by linarith
  then have b: "n < ilog2 x + 1" by (simp only: pow2_less_iff)
  show ?thesis using a b by simp
qed

lemma ilog2_mono:
  assumes "x \<noteq> 0" and "\<bar>x\<bar> \<le> \<bar>y\<bar>"
  shows "ilog2 x \<le> ilog2 y"
proof -
  have y: "y \<noteq> 0" using assms by auto
  have "(2::rat) powi ilog2 x < 2 powi (ilog2 y + 1)"
    using ilog2_bounds(1)[OF assms(1)] ilog2_bounds(2)[OF y] assms(2) by linarith
  then have "ilog2 x < ilog2 y + 1" by (simp only: pow2_less_iff)
  then show ?thesis by simp
qed

lemma round_even_of_int [simp]: "round_even (of_int n) = n"
  by (simp add: round_even_def)

lemma round_even_le_ceiling: "round_even y \<le> \<lceil>y\<rceil>"
  unfolding round_even_def Let_def by (auto simp: ceiling_altdef)

lemma floor_le_round_even: "\<lfloor>y\<rfloor> \<le> round_even y"
  unfolding round_even_def Let_def by auto

lemma round_even_near: "\<bar>of_int (round_even y) - y\<bar> \<le> 1 / 2"
  unfolding round_even_def Let_def by (auto simp: abs_if) linarith+

lemma ulp_exp_mono:
  assumes "x \<noteq> 0" and "\<bar>x\<bar> \<le> \<bar>y\<bar>"
  shows "ulp_exp x \<le> ulp_exp y"
  using ilog2_mono[OF assms] by (simp add: ulp_exp_def)

lemma rnd_nonzero:
  "x \<noteq> 0 \<Longrightarrow> rnd x = of_int (round_even (x / 2 powi ulp_exp x)) * 2 powi ulp_exp x"
  by (simp add: rnd_def)

lemma rnd_0 [simp]: "rnd 0 = 0"
  by (simp add: rnd_def)

lemma pow2_split: "e' \<le> e \<Longrightarrow> (2::rat) powi e = of_int (2 ^ nat (e - e')) * 2 powi e'"
proof -
  assume h: "e' \<le> e"
  have "(2::rat) powi e = 2 powi ((e - e') + e')" by simp
  also have "\<dots> = 2 powi (e - e') * 2 powi e'" by (rule power_int_add) simp
  also have "(2::rat) powi (e - e') = of_int (2 ^ nat (e - e'))"
    using h by (simp add: power_int_nonneg_exp)
  finally show ?thesis .
qed

lemma multiple_coarser:
  assumes "e' \<le> e"
  shows "\<exists>m. (of_int n :: rat) * 2 powi e = of_int m * 2 powi e'"
proof
  show "(of_int n :: rat) * 2 powi e = of_int (n * 2 ^ nat (e - e')) * 2 powi e'"
    by (subst pow2_split[OF assms]) simp
qed

lemma double_multiple:
  assumes "is_double x"
  shows "\<exists>n. x = of_int n * 2 powi ulp_exp x"
proof (cases "x = 0")
  case True
  then show ?thesis by (intro exI[of _ 0]) simp
next
  case False
  have "rnd x = x" using assms by (simp add: is_double_def)
  then have "x = of_int (round_even (x / 2 powi ulp_exp x)) * 2 powi ulp_exp x"
    using rnd_nonzero[OF False] by simp
  then show ?thesis ..
qed

lemma double_multiple_finer:
  assumes "is_double c" and "e \<le> ulp_exp c"
  shows "\<exists>m. c = of_int m * 2 powi e"
proof -
  obtain n where "c = of_int n * 2 powi ulp_exp c" using double_multiple[OF assms(1)] ..
  moreover obtain m where "(of_int n :: rat) * 2 powi ulp_exp c = of_int m * 2 powi e"
    using multiple_coarser[OF assms(2)] by blast
  ultimately show ?thesis by auto
qed

text \<open>Rounding never crosses a double: it is monotone against representable bounds.\<close>

lemma rnd_le_double:
  assumes "0 < q" and "q \<le> c" and "is_double c"
  shows "rnd q \<le> c"
proof -
  define e where "e = ulp_exp q"
  have "e \<le> ulp_exp c" unfolding e_def using assms by (intro ulp_exp_mono) auto
  then obtain m where m: "c = of_int m * 2 powi e"
    using double_multiple_finer[OF assms(3)] by blast
  have "q / 2 powi e \<le> of_int m" using assms(2) by (simp add: m pos_divide_le_eq)
  then have "\<lceil>q / 2 powi e\<rceil> \<le> m" by (simp add: ceiling_le_iff)
  then have "round_even (q / 2 powi e) \<le> m"
    using round_even_le_ceiling[of "q / 2 powi e"] by linarith
  then have "(of_int (round_even (q / 2 powi e)) :: rat) * 2 powi e \<le> of_int m * 2 powi e"
    by (intro mult_right_mono) auto
  then show ?thesis using assms(1) by (simp add: rnd_nonzero e_def m)
qed

lemma rnd_ge_binade:
  assumes "q \<noteq> 0" and "- 1074 \<le> ilog2 q - 52" and "0 < q"
  shows "2 powi ilog2 q \<le> rnd q"
proof -
  define e where "e = ilog2 q - 52"
  have ue: "ulp_exp q = e" using assms(2) by (simp add: ulp_exp_def e_def)
  have s: "(2::rat) powi ilog2 q = of_int (2 ^ 52) * 2 powi e"
    using pow2_split[of e "ilog2 q"] by (simp add: e_def)
  have "2 powi ilog2 q \<le> q" using ilog2_bounds(1)[OF assms(1)] assms(3) by simp
  then have "of_int (2 ^ 52) \<le> q / 2 powi e" by (simp add: s pos_le_divide_eq)
  then have "2 ^ 52 \<le> \<lfloor>q / 2 powi e\<rfloor>" by (simp only: le_floor_iff)
  then have "2 ^ 52 \<le> round_even (q / 2 powi e)"
    using floor_le_round_even[of "q / 2 powi e"] by linarith
  then have "(of_int (2 ^ 52) :: rat) * 2 powi e \<le> of_int (round_even (q / 2 powi e)) * 2 powi e"
    by (intro mult_right_mono) (simp_all only: of_int_le_iff, simp)
  then show ?thesis using assms(1) by (simp add: rnd_nonzero ue s)
qed

lemma double_le_rnd:
  assumes "0 < c" and "c \<le> q" and "is_double c"
  shows "c \<le> rnd q"
proof -
  have q0: "q \<noteq> 0" "0 < q" using assms by auto
  have c0: "c \<noteq> 0" using assms by auto
  define e where "e = ulp_exp q"
  have le: "ulp_exp c \<le> e" unfolding e_def using assms by (intro ulp_exp_mono) auto
  show ?thesis
  proof (cases "ulp_exp c = e")
    case True
    then obtain m where m: "c = of_int m * 2 powi e"
      using double_multiple[OF assms(3)] by auto
    have "of_int m \<le> q / 2 powi e" using assms(2) by (simp add: m pos_le_divide_eq)
    then have "m \<le> \<lfloor>q / 2 powi e\<rfloor>" by (simp add: le_floor_iff)
    then have "m \<le> round_even (q / 2 powi e)"
      using floor_le_round_even[of "q / 2 powi e"] by linarith
    then have "(of_int m :: rat) * 2 powi e \<le> of_int (round_even (q / 2 powi e)) * 2 powi e"
      by (intro mult_right_mono) auto
    then show ?thesis using q0 by (simp add: rnd_nonzero e_def m)
  next
    case False
    then have lt: "ulp_exp c < ulp_exp q" using le by (simp add: e_def)
    then have n: "- 1074 \<le> ilog2 q - 52" "ilog2 c < ilog2 q"
      by (auto simp: ulp_exp_def max_def split: if_splits)
    have "c < 2 powi (ilog2 c + 1)" using ilog2_bounds(2)[OF c0] assms(1) by simp
    also have "\<dots> \<le> 2 powi ilog2 q" using n(2) by simp
    also have "\<dots> \<le> rnd q" using rnd_ge_binade[OF q0(1) n(1) q0(2)] .
    finally show ?thesis by simp
  qed
qed

text \<open>Two different doubles are at least one unit in the last place apart.\<close>

lemma double_spacing:
  assumes "0 < x" and "x < c" and "is_double x" and "is_double c"
  shows "x + 2 powi ulp_exp x \<le> c"
proof -
  define e where "e = ulp_exp x"
  have "e \<le> ulp_exp c" unfolding e_def using assms by (intro ulp_exp_mono) auto
  then obtain m where m: "c = of_int m * 2 powi e"
    using double_multiple_finer[OF assms(4)] by blast
  obtain n where n: "x = of_int n * 2 powi e"
    using double_multiple[OF assms(3)] by (auto simp: e_def)
  have "(of_int n :: rat) * 2 powi e < of_int m * 2 powi e" using assms(2) by (simp add: m n)
  then have "(of_int n :: rat) < of_int m" by (simp only: mult_less_cancel_right_pos[OF pow2_pos])
  then have "n + 1 \<le> m" by simp
  then have "(of_int (n + 1) :: rat) \<le> of_int m" by (simp only: of_int_le_iff)
  then have "(of_int (n + 1) :: rat) * 2 powi e \<le> of_int m * 2 powi e"
    by (intro mult_right_mono) auto
  then have "x + 2 powi e \<le> c" by (simp add: m n algebra_simps)
  then show ?thesis by (simp only: e_def)
qed

lemma rnd_near: "\<bar>rnd q - q\<bar> \<le> 2 powi ulp_exp q / 2"
proof (cases "q = 0")
  case True
  then show ?thesis by simp
next
  case False
  define e where "e = ulp_exp q"
  have "\<bar>of_int (round_even (q / 2 powi e)) - q / 2 powi e\<bar> * 2 powi e \<le> (1 / 2) * 2 powi e"
    by (intro mult_right_mono round_even_near) simp
  moreover have "\<bar>of_int (round_even (q / 2 powi e)) - q / 2 powi e\<bar> * 2 powi e
      = \<bar>of_int (round_even (q / 2 powi e)) * 2 powi e - q\<bar>"
  proof -
    have "\<bar>of_int (round_even (q / 2 powi e)) - q / 2 powi e\<bar> * 2 powi e
      = \<bar>(of_int (round_even (q / 2 powi e)) - q / 2 powi e) * 2 powi e\<bar>"
      by (simp add: abs_mult)
    also have "(of_int (round_even (q / 2 powi e)) - q / 2 powi e) * 2 powi e
       = of_int (round_even (q / 2 powi e)) * 2 powi e - q"
      by (simp add: algebra_simps)
    finally show ?thesis .
  qed
  moreover have "rnd q = of_int (round_even (q / 2 powi e)) * 2 powi e"
    using False by (simp add: rnd_nonzero e_def)
  ultimately have "\<bar>rnd q - q\<bar> \<le> (1 / 2) * 2 powi e" by simp
  then show ?thesis by (simp add: e_def)
qed

lemma rnd_nonneg: "0 \<le> q \<Longrightarrow> 0 \<le> rnd q"
proof (cases "q = 0")
  case False
  assume "0 \<le> q"
  then have "0 \<le> q / 2 powi ulp_exp q" by simp
  then have "0 \<le> \<lfloor>q / 2 powi ulp_exp q\<rfloor>" by simp
  then have "0 \<le> round_even (q / 2 powi ulp_exp q)"
    using floor_le_round_even[of "q / 2 powi ulp_exp q"] by linarith
  then show ?thesis using False by (simp add: rnd_nonzero)
qed simp

text \<open>Every \<open>n * 2^e\<close> with a 53-bit \<open>n\<close> and an exponent in range is a double.\<close>

lemma representable:
  assumes "\<bar>n\<bar> < 2 ^ 53" and "- 1074 \<le> e" and "e \<le> 971"
  shows "is_double (of_int n * 2 powi e)"
proof (cases "n = 0")
  case True
  then show ?thesis by (simp add: is_double_def)
next
  case False
  define x :: rat where "x = of_int n * 2 powi e"
  have x0: "x \<noteq> 0" using False by (simp add: x_def)
  have "(of_int \<bar>n\<bar> :: rat) < of_int (2 ^ 53)" using assms(1) by (simp only: of_int_less_iff)
  then have nb: "\<bar>of_int n :: rat\<bar> < 2 powi 53" by simp
  have ax: "\<bar>x\<bar> = \<bar>of_int n\<bar> * 2 powi e" by (simp add: x_def abs_mult)
  have "\<bar>x\<bar> < 2 powi 53 * 2 powi e" unfolding ax using nb by (intro mult_strict_right_mono) auto
  also have "\<dots> = 2 powi (53 + e)" by (simp add: power_int_add)
  finally have xb: "\<bar>x\<bar> < 2 powi (53 + e)" .
  have "(2::rat) powi ilog2 x < 2 powi (53 + e)"
    using ilog2_bounds(1)[OF x0] xb by linarith
  then have "ilog2 x < 53 + e" by (simp only: pow2_less_iff)
  then have ule: "ulp_exp x \<le> e" using assms(2) by (simp add: ulp_exp_def)
  then obtain m where m: "x = of_int m * 2 powi ulp_exp x"
    using multiple_coarser[of "ulp_exp x" e n] by (auto simp: x_def)
  have "x / 2 powi ulp_exp x = of_int m" by (subst m) simp
  then have r: "rnd x = x" using x0 m by (simp add: rnd_nonzero)
  have "(2::rat) powi (53 + e) \<le> 2 powi 1024" using assms(3) by (simp only: pow2_le_iff)
  then have "\<bar>x\<bar> < 2 ^ 1024" using xb by simp
  then show ?thesis using r by (simp add: is_double_def x_def)
qed


section \<open>Evaluating the rounding on concrete values\<close>

lemma floor_rat_numeral [simp]:
  "\<lfloor>numeral a / numeral b :: rat\<rfloor> = numeral a div numeral b"
  using floor_divide_of_int_eq[of "numeral a" "numeral b", where ?'a = rat] by simp

lemma floor_rat_neg_numeral [simp]:
  "\<lfloor>- (numeral a / numeral b) :: rat\<rfloor> = - numeral a div numeral b"
  using floor_divide_of_int_eq[of "- numeral a" "numeral b", where ?'a = rat] by simp

lemma floor_rat_one_numeral [simp]:
  "\<lfloor>1 / numeral b :: rat\<rfloor> = 1 div numeral b"
  using floor_divide_of_int_eq[of 1 "numeral b", where ?'a = rat] by simp

lemma floor_rat_neg_one_numeral [simp]:
  "\<lfloor>- (1 / numeral b) :: rat\<rfloor> = - 1 div numeral b"
  using floor_divide_of_int_eq[of "- 1" "numeral b", where ?'a = rat] by simp

lemma rnd_double: "is_double x \<Longrightarrow> rnd x = x"
  by (simp add: is_double_def)

lemma rnd_eval:
  assumes "2 powi (e + 52) \<le> \<bar>x\<bar>" and "\<bar>x\<bar> < 2 powi (e + 53)" and "- 1074 \<le> e"
  shows "rnd x = of_int (round_even (x / 2 powi e)) * 2 powi e"
proof -
  have "ilog2 x = e + 52" using assms(1,2) by (intro ilog2_eqI) (simp_all add: add.commute)
  then have u: "ulp_exp x = e" using assms(3) by (simp add: ulp_exp_def)
  have "(0::rat) < 2 powi (e + 52)" by simp
  then have "0 < \<bar>x\<bar>" using assms(1) by (rule less_le_trans)
  then have "x \<noteq> 0" by simp
  then show ?thesis by (simp add: rnd_nonzero u)
qed

lemma rnd_eval_subnormal:
  assumes "x \<noteq> 0" and "\<bar>x\<bar> < 2 powi (- 1022)"
  shows "rnd x = of_int (round_even (x / 2 powi (- 1074))) * 2 powi (- 1074)"
proof -
  have "(2::rat) powi ilog2 x < 2 powi (- 1022)"
    using ilog2_bounds(1)[OF assms(1)] assms(2) by linarith
  then have "ilog2 x < - 1022" by (simp only: pow2_less_iff)
  then have u: "ulp_exp x = - 1074" by (simp add: ulp_exp_def)
  show ?thesis using assms(1) by (simp add: rnd_nonzero u)
qed

lemma dyadic_double:
  assumes "\<bar>n\<bar> < 2 ^ 53" and "k \<le> 1074"
  shows "is_double (of_int n / 2 ^ k)"
proof -
  have "is_double (of_int n * 2 powi (- int k))"
    using assms by (intro representable) auto
  then show ?thesis by (simp add: power_int_minus divide_inverse)
qed

lemma int_double: "\<bar>n\<bar> < 2 ^ 53 \<Longrightarrow> is_double (of_int n)"
  using dyadic_double[of n 0] by simp

lemma segmentSize_eq: "segmentSize = 45 / 8"
proof -
  have "is_double (of_int 45 / 2 ^ 3)" by (rule dyadic_double) simp_all
  then have "rnd (45 / 8) = 45 / 8" by (simp add: rnd_double)
  then show ?thesis by (simp add: segmentSize_def js_div_def)
qed

lemma js_mul_segmentSize:
  assumes "\<bar>i\<bar> \<le> 64"
  shows "js_mul (of_int i) segmentSize = of_int i * (45 / 8)"
proof -
  have "is_double (of_int (i * 45) / 2 ^ 3)" using assms by (intro dyadic_double) auto
  then have "rnd (of_int (i * 45) / 2 ^ 3) = of_int (i * 45) / 2 ^ 3" by (rule rnd_double)
  then show ?thesis by (simp add: js_mul_def segmentSize_eq)
qed


section \<open>The segment index\<close>

lemma floor_rnd_div_segment:
  assumes d: "is_double x" and x0: "0 \<le> x" and x360: "x < 360"
  shows "\<lfloor>rnd (x / (45 / 8))\<rfloor> = \<lfloor>x / (45 / 8)\<rfloor>"
proof -
  define q where "q = x / (45 / 8)"
  define k where "k = \<lfloor>q\<rfloor> + 1"
  have q0: "0 \<le> q" and q64: "q < 64" using x0 x360 by (simp_all add: q_def)
  have f0: "0 \<le> \<lfloor>q\<rfloor>" using q0 by simp
  have f63: "\<lfloor>q\<rfloor> \<le> 63" using q64 by (simp add: floor_le_iff)
  have qk: "q < of_int k" unfolding k_def by linarith
  have lower: "of_int \<lfloor>q\<rfloor> \<le> rnd q"
  proof (cases "\<lfloor>q\<rfloor> = 0")
    case True
    then show ?thesis using rnd_nonneg[OF q0] by simp
  next
    case False
    then have "0 < \<lfloor>q\<rfloor>" using f0 by linarith
    then have "(0::rat) < of_int \<lfloor>q\<rfloor>" by (simp only: of_int_0_less_iff)
    moreover have "is_double (of_int \<lfloor>q\<rfloor>)" using f0 f63 by (intro int_double) simp
    ultimately show ?thesis by (intro double_le_rnd) simp_all
  qed
  have upper: "rnd q < of_int k"
  proof (cases "q \<le> 1 / 2")
    case True
    have h: "is_double (1 / 2)" using dyadic_double[of 1 1] by simp
    have "rnd q \<le> 1 / 2"
    proof (cases "q = 0")
      case True
      then show ?thesis by simp
    next
      case False
      then have "0 < q" using q0 by simp
      then show ?thesis using True h by (intro rnd_le_double)
    qed
    moreover have "(1::rat) \<le> of_int k" using f0 by (simp add: k_def)
    ultimately show ?thesis by linarith
  next
    case False
    then have qh: "1 / 2 < q" by simp
    then have x2: "2 < x" by (simp add: q_def)
    have xn: "x \<noteq> 0" and qn: "q \<noteq> 0" using x2 qh by auto
    define c :: rat where "c = of_int (k * 45) / 2 ^ 3"
    have "\<bar>k * 45\<bar> < 2 ^ 53" using f0 f63 unfolding k_def by simp linarith
    then have dc: "is_double c" unfolding c_def by (intro dyadic_double) simp_all
    have ck: "c = of_int k * (45 / 8)" by (simp add: c_def)
    have xc: "x < c" using qk by (simp add: ck q_def field_simps)
    define U :: rat where "U = 2 powi ulp_exp x"
    have sp: "x + U \<le> c" unfolding U_def using x2 xc d dc by (intro double_spacing) auto
    have "(2::rat) powi 1 < 2 powi (ilog2 x + 1)"
      using ilog2_bounds(2)[OF xn] x2 by simp
    then have "1 < ilog2 x + 1" by (simp only: pow2_less_iff)
    then have ix: "1 \<le> ilog2 x" by simp
    then have ux: "ulp_exp x = ilog2 x - 52" by (simp add: ulp_exp_def)
    have "(2::rat) powi (- 1) < 2 powi (ilog2 q + 1)"
      using ilog2_bounds(2)[OF qn] qh by (simp add: power_int_minus)
    then have "- 1 < ilog2 q + 1" by (simp only: pow2_less_iff)
    then have iq: "- 1 \<le> ilog2 q" by simp
    then have uq: "ulp_exp q = ilog2 q - 52" by (simp add: ulp_exp_def)
    have "q < x / 4" using x2 by (simp add: q_def)
    moreover have "x < 2 powi (ilog2 x + 1)" using ilog2_bounds(2)[OF xn] x2 by simp
    moreover have "(2::rat) powi (ilog2 x + 1) / 4 = 2 powi (ilog2 x - 1)"
      using power_int_add[of "2::rat" "ilog2 x - 1" 2] by (simp add: add.commute)
    moreover have "2 powi ilog2 q \<le> q" using ilog2_bounds(1)[OF qn] qh by simp
    ultimately have "(2::rat) powi ilog2 q < 2 powi (ilog2 x - 1)" by linarith
    then have "ilog2 q < ilog2 x - 1" by (simp only: pow2_less_iff)
    then have "ilog2 q \<le> ilog2 x - 2" by simp
    then have "ulp_exp q \<le> ulp_exp x - 2" by (simp add: ux uq)
    then have "(2::rat) powi ulp_exp q \<le> 2 powi (ulp_exp x - 2)" by (simp only: pow2_le_iff)
    also have "\<dots> = U / 4"
      using power_int_add[of "2::rat" "ulp_exp x - 2" 2] by (simp add: U_def)
    finally have e: "2 powi ulp_exp q \<le> U / 4" .
    have "rnd q - q \<le> 2 powi ulp_exp q / 2" using rnd_near[of q] by linarith
    then have r: "rnd q \<le> q + U / 8" using e by linarith
    have U0: "0 < U" by (simp add: U_def)
    have "of_int k - q = (c - x) * (8 / 45)" by (simp add: ck q_def field_simps)
    moreover have "U * (8 / 45) \<le> (c - x) * (8 / 45)" using sp by (intro mult_right_mono) auto
    moreover have "U / 8 < U * (8 / 45)" using U0 by simp
    ultimately show ?thesis using r by linarith
  qed
  have "\<lfloor>rnd q\<rfloor> = \<lfloor>q\<rfloor>"
    using lower upper by (intro floor_unique) (simp_all add: k_def)
  then show ?thesis by (simp add: q_def)
qed

lemma normalizedLongitude_id:
  assumes "is_double x" and "0 \<le> x" and "x < 360"
  shows "normalizedLongitude x = x"
proof -
  have "0 \<le> x / 360" "x / 360 < 1" using assms by simp_all
  then have "\<lfloor>x / 360\<rfloor> = 0" by (intro floor_unique) simp_all
  then have "trunc_rat (x / 360) = 0" using assms(2) by (simp add: trunc_rat_def)
  then have "js_rem x 360 = x" using assms(1) by (simp add: js_rem_def rnd_double)
  then show ?thesis using assms(2) by (simp add: normalizedLongitude_def)
qed

lemma segmentIndex_floor:
  assumes "is_double x" and "0 \<le> x" and "x < 360"
  shows "segmentIndex x = \<lfloor>x / (45 / 8)\<rfloor>"
  using floor_rnd_div_segment[OF assms]
  by (simp add: segmentIndex_def normalizedLongitude_id[OF assms] segmentSize_eq
      js_div_def Math_floor_def)

lemma indexOf_ge: "- 1 \<le> indexOf xs v"
  by (induction xs) (auto simp: Let_def)

lemma indexOf_absent: "indexOf xs v = - 1 \<longleftrightarrow> v \<notin> set xs"
proof (induction xs)
  case Nil
  then show ?case by simp
next
  case (Cons x xs)
  have "indexOf xs v + 1 \<noteq> - 1" using indexOf_ge[of xs v] by linarith
  then show ?case using Cons by (auto simp: Let_def)
qed

lemma wheel_distinct: "distinct GENE_KEY_WHEEL"
  by (simp add: GENE_KEY_WHEEL_def)

lemma wheel_length: "length GENE_KEY_WHEEL = 64"
  by (simp add: GENE_KEY_WHEEL_def)

lemma wheel_set: "set GENE_KEY_WHEEL = {1..64}"
proof (rule card_subset_eq)
  show "finite {1..64::int}" by simp
  show "set GENE_KEY_WHEEL \<subseteq> {1..64}" by (simp add: GENE_KEY_WHEEL_def)
  have "card (set GENE_KEY_WHEEL) = 64"
    using distinct_card[OF wheel_distinct] by (simp add: wheel_length)
  then show "card (set GENE_KEY_WHEEL) = card {1..64::int}" by simp
qed

lemma segments_closed_form:
  "getAllGeneKeySegments =
     map (\<lambda>(i, k). \<lparr>seg_geneKey = k, seg_start = of_nat i * (45 / 8),
                      seg_end = of_nat (Suc i) * (45 / 8), seg_index = i\<rparr>)
         (enumerate 0 GENE_KEY_WHEEL)"
  unfolding getAllGeneKeySegments_def
proof (rule map_cong[OF refl])
  fix p assume p: "p \<in> set (enumerate 0 GENE_KEY_WHEEL)"
  obtain i k where ik: "p = (i, k)" by (cases p)
  have "i < 64" using p by (auto simp: ik in_set_enumerate_eq wheel_length)
  then have a: "js_mul (of_nat i) segmentSize = of_nat i * (45 / 8)"
    and b: "js_mul (1 + of_nat i) segmentSize = (1 + of_nat i) * (45 / 8)"
    using js_mul_segmentSize[of "int i"] js_mul_segmentSize[of "int (i + 1)"] by simp_all
  show "(case p of (i, k) \<Rightarrow>
           \<lparr>seg_geneKey = k, seg_start = js_mul (of_nat i) segmentSize,
            seg_end = js_mul (of_nat (i + 1)) segmentSize, seg_index = i\<rparr>) =
        (case p of (i, k) \<Rightarrow> \<lparr>seg_geneKey = k, seg_start = of_nat i * (45 / 8),
                      seg_end = of_nat (Suc i) * (45 / 8), seg_index = i\<rparr>)"
    by (simp add: ik a b)
qed


lemma toDouble_double: "is_double v \<Longrightarrow> toDouble v = Num v"
  by (auto simp: toDouble_def is_double_def Let_def abs_if split: if_splits)

lemma toDouble_numeral [simp]:
  "(numeral k :: int) < 2 ^ 53 \<Longrightarrow> toDouble (numeral k) = Num (numeral k)"
  using int_double[of "numeral k"] by (simp add: toDouble_double)

lemma toDouble_0 [simp]: "toDouble 0 = Num 0"
  using int_double[of 0] by (simp add: toDouble_double)

lemma toDouble_1 [simp]: "toDouble 1 = Num 1"
  using int_double[of 1] by (simp add: toDouble_double)

lemmas Number_simps = Number_def trim_def isWhiteSpace_def radixLiteral_def unsignedDecimal_def
      isDigit_def exponentPart_def digitsValue_def digitValue_def Let_def


lemma indexOf_nth:
  "distinct xs \<Longrightarrow> i < length xs \<Longrightarrow> indexOf xs (xs ! i) = int i"
proof (induction xs arbitrary: i)
  case Nil
  then show ?case by simp
next
  case (Cons x xs)
  show ?case
  proof (cases i)
    case 0
    then show ?thesis by simp
  next
    case (Suc j)
    then have j: "j < length xs" using Cons.prems by simp
    then have "xs ! j \<in> set xs" by simp
    then have ne: "x \<noteq> xs ! j" using Cons.prems by auto
    have "indexOf xs (xs ! j) = int j" using Cons.IH[OF _ j] Cons.prems by simp
    then show ?thesis using ne Suc by (simp add: Let_def)
  qed
qed

lemma range_of_wheel_entry:
  assumes "i < 64"
  shows "getGeneKeyDegreeRange (GENE_KEY_WHEEL ! i) =
           Inr \<lparr>start = toFixed (of_nat i * (45 / 8)) 2,
                end' = toFixed (of_nat (i + 1) * (45 / 8)) 2,
                geneKey = GENE_KEY_WHEEL ! i\<rparr>"
proof -
  have ix: "indexOf GENE_KEY_WHEEL (GENE_KEY_WHEEL ! i) = int i"
    using assms by (intro indexOf_nth wheel_distinct) (simp add: wheel_length)
  have a: "js_mul (of_int (int i)) segmentSize = of_nat i * (45 / 8)"
    using js_mul_segmentSize[of "int i"] assms by simp
  have b: "js_mul (of_int (int i + 1)) segmentSize = of_nat (i + 1) * (45 / 8)"
    using js_mul_segmentSize[of "int i + 1"] assms by simp
  show ?thesis unfolding getGeneKeyDegreeRange_def ix Let_def a b by simp
qed


section \<open>Quotients that round to zero or below\<close>

lemma round_even_neg: "y < - (1 / 2) \<Longrightarrow> round_even y \<le> - 1"
proof -
  assume h: "y < - (1 / 2)"
  have f: "\<lfloor>y\<rfloor> \<le> - 1" using h by (simp add: floor_le_iff)
  show ?thesis
  proof (cases "\<lfloor>y\<rfloor> = - 1")
    case True
    then have "y - of_int \<lfloor>y\<rfloor> < 1 / 2" using h by simp
    then show ?thesis by (simp add: round_even_def Let_def True)
  next
    case False
    then have "\<lfloor>y\<rfloor> + 1 \<le> - 1" using f by linarith
    moreover have "\<lceil>y\<rceil> \<le> \<lfloor>y\<rfloor> + 1" by (simp add: ceiling_altdef)
    ultimately show ?thesis using round_even_le_ceiling[of y] by linarith
  qed
qed

lemma rnd_negative:
  assumes "q < - (1 / 2 ^ 1075)"
  shows "rnd q < 0"
proof -
  have q0: "q \<noteq> 0" "q < 0" using assms
    by (auto intro: less_trans[of _ "- (1 / 2 ^ 1075)"])
  define e where "e = ulp_exp q"
  have y: "q / 2 powi e < - (1 / 2)"
  proof (cases "e = - 1074")
    case True
    have "q * 2 ^ 1074 < - (1 / 2 ^ 1075) * 2 ^ 1074"
      using assms by (intro mult_strict_right_mono) simp_all
    then show ?thesis by (simp add: True power_int_minus field_simps)
  next
    case False
    then have e52: "e = ilog2 q - 52" by (auto simp: e_def ulp_exp_def max_def split: if_splits)
    have "2 powi ilog2 q \<le> - q" using ilog2_bounds(1)[OF q0(1)] q0(2) by simp
    moreover have "(2::rat) powi ilog2 q = 2 ^ 52 * 2 powi e"
      using pow2_split[of e "ilog2 q"] by (simp add: e52)
    ultimately have "2 ^ 52 * 2 powi e \<le> - q" by simp
    then have "2 ^ 52 \<le> (- q) / 2 powi e" by (subst pos_le_divide_eq) simp_all
    then have "q / 2 powi e \<le> - (2 ^ 52)" by simp
    also have "\<dots> < - (1 / 2)" by simp
    finally show ?thesis .
  qed
  have "round_even (q / 2 powi e) \<le> - 1" using round_even_neg[OF y] .
  then have "(of_int (round_even (q / 2 powi e)) :: rat) \<le> of_int (- 1)"
    by (simp only: of_int_le_iff)
  then have "(of_int (round_even (q / 2 powi e)) :: rat) < 0" by simp
  then have "(of_int (round_even (q / 2 powi e)) :: rat) * 2 powi e < 0"
    by (simp add: mult_less_0_iff)
  then show ?thesis using q0(1) by (simp add: rnd_nonzero e_def)
qed

lemma rnd_underflow:
  assumes "- (1 / 2 ^ 1075) \<le> q" and "q \<le> 0"
  shows "rnd q = 0"
proof (cases "q = 0")
  case True
  then show ?thesis by simp
next
  case False
  have "\<bar>q\<bar> \<le> 1 / 2 ^ 1075" using assms by simp
  also have "\<dots> < 2 powi (- 1022)" by (simp add: power_int_minus field_simps)
  finally have r: "rnd q = of_int (round_even (q / 2 powi (- 1074))) * 2 powi (- 1074)"
    using False by (intro rnd_eval_subnormal)
  define y where "y = q / 2 powi (- 1074)"
  have yq: "y = q * 2 ^ 1074" by (simp add: y_def power_int_minus field_simps)
  have "- (1 / 2 ^ 1075) * 2 ^ 1074 \<le> q * 2 ^ 1074"
    using assms(1) by (intro mult_right_mono) simp_all
  then have y1: "- (1 / 2) \<le> y" by (simp add: yq)
  have y2: "y < 0" using assms(2) False by (simp add: yq mult_less_0_iff)
  have f: "\<lfloor>y\<rfloor> = - 1" using y1 y2 by (intro floor_unique) simp_all
  have "round_even y = 0" using y1 by (simp add: round_even_def Let_def f)
  then show ?thesis unfolding r y_def[symmetric] by simp
qed


lemma zodiac_index_below_12:
  assumes d: "is_double x" and x0: "0 \<le> x" and x360: "x < 360"
  shows "rnd (x / 30) < 12"
proof (cases "x \<le> 256")
  case True
  have d9: "is_double 9" using int_double[of 9] by simp
  show ?thesis
  proof (cases "x = 0")
    case True
    then show ?thesis by simp
  next
    case False
    then have "0 < x / 30" using x0 by simp
    moreover have "x / 30 \<le> 9" using True by simp
    ultimately have "rnd (x / 30) \<le> 9" using d9 by (intro rnd_le_double)
    then show ?thesis by simp
  qed
next
  case False
  then have x256: "256 < x" by simp
  have xn: "x \<noteq> 0" using x256 by auto
  have "(2::rat) powi 8 < 2 powi (ilog2 x + 1)"
    using ilog2_bounds(2)[OF xn] x256 by simp
  then have "8 < ilog2 x + 1" by (simp only: pow2_less_iff)
  then have "- 44 \<le> ulp_exp x" by (simp add: ulp_exp_def)
  then have "(2::rat) powi (- 44) \<le> 2 powi ulp_exp x" by (simp only: pow2_le_iff)
  moreover have d360: "is_double 360" using int_double[of 360] by simp
  have "x + 2 powi ulp_exp x \<le> 360" using x256 x360 d d360 by (intro double_spacing) auto
  ultimately have xb: "x \<le> 360 - 2 powi (- 44)" by linarith
  define c :: rat where "c = of_int (12 * 2 ^ 49 - 1) / 2 ^ 49"
  have dc: "is_double c" unfolding c_def by (rule dyadic_double) simp_all
  have "x / 30 \<le> (360 - 2 powi (- 44)) / 30" using xb by (simp add: divide_right_mono)
  also have "\<dots> \<le> c" by (simp add: c_def power_int_minus field_simps)
  finally have "x / 30 \<le> c" .
  moreover have "0 < x / 30" using x256 by simp
  ultimately have "rnd (x / 30) \<le> c" using dc by (intro rnd_le_double)
  moreover have "c < 12" by (simp add: c_def field_simps)
  ultimately show ?thesis by linarith
qed


section \<open>Bounds on the sine and on pi\<close>

lemma cos_lower_quadratic:
  fixes x :: real
  assumes "0 \<le> x"
  shows "1 - x\<^sup>2 / 2 \<le> cos x"
proof -
  let ?f = "\<lambda>x. cos x - 1 + x\<^sup>2 / 2"
  have "\<And>u. \<lbrakk>0 \<le> u; u \<le> x\<rbrakk> \<Longrightarrow> \<exists>y. (?f has_real_derivative y) (at u) \<and> 0 \<le> y"
  proof -
    fix u :: real assume u: "0 \<le> u" "u \<le> x"
    have "(?f has_real_derivative (- sin u + u)) (at u)"
      by (auto intro!: derivative_eq_intros simp: field_simps)
    moreover have "0 \<le> - sin u + u" using sin_x_le_x[OF u(1)] by simp
    ultimately show "\<exists>y. (?f has_real_derivative y) (at u) \<and> 0 \<le> y" by blast
  qed
  then have "?f 0 \<le> ?f x" by (rule DERIV_nonneg_imp_nondecreasing[OF assms])
  then show ?thesis by simp
qed

lemma sin_lower_cubic:
  fixes x :: real
  assumes "0 \<le> x"
  shows "x - x ^ 3 / 6 \<le> sin x"
proof -
  let ?f = "\<lambda>x. sin x - x + x ^ 3 / 6"
  have "\<And>u. \<lbrakk>0 \<le> u; u \<le> x\<rbrakk> \<Longrightarrow> \<exists>y. (?f has_real_derivative y) (at u) \<and> 0 \<le> y"
  proof -
    fix u :: real assume u: "0 \<le> u" "u \<le> x"
    have "(?f has_real_derivative (cos u - 1 + u\<^sup>2 / 2)) (at u)"
      by (auto intro!: derivative_eq_intros simp: field_simps power2_eq_square)
    moreover have "0 \<le> cos u - 1 + u\<^sup>2 / 2" using cos_lower_quadratic[OF u(1)] by simp
    ultimately show "\<exists>y. (?f has_real_derivative y) (at u) \<and> 0 \<le> y" by blast
  qed
  then have "?f 0 \<le> ?f x" by (rule DERIV_nonneg_imp_nondecreasing[OF assms])
  then show ?thesis by simp
qed

lemma pi_ge_3: "3 \<le> pi"
proof -
  have "sin (pi / 6) \<le> pi / 6" by (rule sin_x_le_x) simp
  then show ?thesis by (simp add: sin_30)
qed

section \<open>Evaluating dates and the ephemeris\<close>

lemma civil_10957: "civil_from_days 10957 = (2000, 1, 1)"
  by code_simp

lemma Day_j2000: "Day 946728000000 = 10957"
  by (simp add: Day_def msPerDay_def)

lemma days_2000_01_01: "days_from_civil 2000 1 1 = 10957" by code_simp
lemma days_2000_02_01: "days_from_civil 2000 2 1 = 10988" by code_simp
lemma days_2000_07_01: "days_from_civil 2000 7 1 = 11139" by code_simp
lemma days_2000_08_01: "days_from_civil 2000 8 1 = 11170" by code_simp

lemma split_date_2000_01_01:
  "map Number (split (CHR ''-'') ''2000-01-01'') = [Num 2000, Num 1, Num 1]"
  by (simp add: Number_simps)

lemma split_time_12_00:
  "map Number (split (CHR '':'') ''12:00'') = [Num 12, Num 0]"
  by (simp add: Number_simps)

lemma Date_UTC_2000_01_01:
  "Date_UTC (Num 2000) (Num 0) (Num 1) (Num 12) (Num 0) (Num 0) = Some 946728000000"
  by (simp add: Date_UTC_def MakeDate_def MakeDay_def MakeTime_def MakeFullYear_def
      ToIntegerFinite_def trunc_rat_def TimeClip_def msPerDay_def days_2000_01_01 Let_def)

lemma dateStringValid_2000_01_01:
  "dateStringValid example_env [Some (Num 2000), Some (Num 1), Some (Num 1), Some (Num 12), Some (Num 0)]"
  by (simp add: dateStringValid_def ToIntegerFinite_def trunc_rat_def isInteger_def ToNumber_def
      daysInMonth_def days_2000_01_01 days_2000_02_01)

lemma convert_utc_2000:
  "convertLocalToUTC example_env ''2000-01-01'' ''12:00'' ''UTC'' = Inr (Some 946728000000)"
  unfolding convertLocalToUTC_def split_date_2000_01_01 split_time_12_00 Let_def
  using dateStringValid_2000_01_01
  by (simp add: js_index_def example_env_def ToNumber_def Date_UTC_2000_01_01 TimeClip_def)

lemma convert_new_york_2000:
  "convertLocalToUTC example_env ''2000-01-01'' ''12:00'' ''America/New_York''
     = Inr (Some 946710000000)"
  unfolding convertLocalToUTC_def split_date_2000_01_01 split_time_12_00 Let_def
  using dateStringValid_2000_01_01
  by (simp add: js_index_def example_env_def ToNumber_def Date_UTC_2000_01_01 TimeClip_def
      new_york_2000_def)

lemma days_2023_02_01: "days_from_civil 2023 2 1 = 19389" by code_simp
lemma civil_19403: "civil_from_days 19403 = (2023, 2, 15)" by code_simp
lemma civil_19418: "civil_from_days 19418 = (2023, 3, 2)" by code_simp

lemma validateDateTime_2023_02_30:
  "validateDateTime example_env (Some ''2023-02-30'') (Some ''12:00'')
     = invalid ''Invalid day for the given month''"
proof -
  have n: "Number ''2023'' = Num 2023" "Number ''02'' = Num 2" "Number ''30'' = Num 30"
    "Number ''12'' = Num 12" "Number ''00'' = Num 0"
    by (simp_all add: Number_simps)
  have l: "Date_local example_env (Num 2023) (Num 1) (Num 30) (Num 12) (Num 0)
             = Some 1677758400000"
    by (simp add: Date_local_def MakeDate_def MakeDay_def MakeTime_def MakeFullYear_def
        ToIntegerFinite_def trunc_rat_def TimeClip_def msPerDay_def days_2023_02_01
        example_env_def Let_def)
  have m: "getMonth example_env 1677758400000 = 2"
    by (simp add: getMonth_def MonthFromTime_def Day_def msPerDay_def example_env_def civil_19418)
  show ?thesis
    by (simp add: validateDateTime_def Let_def js_index_def falsy_def isNaN_def ToNumber_def
        n l m)
qed

lemma validateDateTime_missing:
  "validateDateTime e None time = invalid ''Failed to validate date/time''"
  "validateDateTime e date None = invalid ''Failed to validate date/time''"
  by (simp_all add: validateDateTime_def split: option.splits)

lemma convert_new_york_summer_2000:
  "convertLocalToUTC example_env ''2000-07-01'' ''12:00'' ''America/New_York''
     = Inr (Some 962438400000)"
proof -
  have d: "map Number (split (CHR ''-'') ''2000-07-01'') = [Num 2000, Num 7, Num 1]"
    by (simp add: Number_simps)
  have v: "dateStringValid example_env
             [Some (Num 2000), Some (Num 7), Some (Num 1), Some (Num 12), Some (Num 0)]"
    by (simp add: dateStringValid_def ToIntegerFinite_def trunc_rat_def isInteger_def
        ToNumber_def daysInMonth_def days_2000_07_01 days_2000_08_01)
  have u: "Date_UTC (Num 2000) (Num 6) (Num 1) (Num 12) (Num 0) (Num 0) = Some 962452800000"
    by (simp add: Date_UTC_def MakeDate_def MakeDay_def MakeTime_def MakeFullYear_def
        ToIntegerFinite_def trunc_rat_def TimeClip_def msPerDay_def days_2000_07_01 Let_def)
  have s: "js_sub (Num 7) (Num 1) = Num 6"
    using toDouble_numeral[of "num.Bit0 (num.Bit1 num.One)"] by simp
  show ?thesis
    unfolding convertLocalToUTC_def d split_time_12_00 Let_def
    using v
    by (simp add: js_index_def example_env_def ToNumber_def s u TimeClip_def new_york_2000_def)
qed

lemma zodiac_capricorn:
  assumes "270 \<le> x" and "x \<le> 285"
  shows "getZodiacSign x = Some ''Capricorn''"
proof -
  have d9: "is_double 9" using int_double[of 9] by simp
  have d95: "is_double (19 / 2)" using dyadic_double[of 19 1] by simp
  have q: "9 \<le> x / 30" "x / 30 \<le> 19 / 2" "0 < x / 30" using assms by simp_all
  have "9 \<le> rnd (x / 30)" using q(1) d9 by (intro double_le_rnd) simp_all
  moreover have "rnd (x / 30) \<le> 19 / 2" using q(2,3) d95 by (intro rnd_le_double)
  ultimately have "\<lfloor>rnd (x / 30)\<rfloor> = 9" by (intro floor_unique) simp_all
  then show ?thesis
    by (simp add: getZodiacSign_def js_div_def Math_floor_def js_index_def signs_def)
qed


section \<open>Evaluating the handler\<close>

































section \<open>Rounding is monotone\<close>

lemma round_even_minus: "round_even (- y) = - round_even y"
proof (cases "y = of_int \<lfloor>y\<rfloor>")
  case True
  then obtain n where "y = of_int n" ..
  then show ?thesis using round_even_of_int[of "- n"] by simp
next
  case False
  have "of_int \<lfloor>y\<rfloor> \<le> y" by (rule of_int_floor_le)
  moreover have "of_int \<lfloor>y\<rfloor> \<noteq> y" using False by (rule not_sym)
  ultimately have f: "of_int \<lfloor>y\<rfloor> < y" by (rule le_neq_trans)
  have c: "\<lceil>y\<rceil> = \<lfloor>y\<rfloor> + 1" using False by (auto simp: ceiling_altdef)
  have m: "\<lfloor>- y\<rfloor> = - \<lfloor>y\<rfloor> - 1" using c by (simp add: ceiling_def)
  show ?thesis
    unfolding round_even_def Let_def m by (auto simp: algebra_simps)
qed

lemma ulp_exp_minus [simp]: "ulp_exp (- x) = ulp_exp x"
  by (simp add: ulp_exp_def ilog2_def)

lemma rnd_minus: "rnd (- x) = - rnd x"
  by (simp add: rnd_def round_even_minus)

lemma is_double_minus: "is_double x \<Longrightarrow> is_double (- x)"
  by (simp add: is_double_def rnd_minus)

lemma rnd_nonpos: "q \<le> 0 \<Longrightarrow> rnd q \<le> 0"
  using rnd_nonneg[of "- q"] by (simp add: rnd_minus)

lemma rnd_mono_le:
  assumes "q \<le> c" and "is_double c"
  shows "rnd q \<le> c"
proof -
  consider "0 < q" | "q \<le> 0" "0 \<le> c" | "q \<le> 0" "c < 0" by linarith
  then show ?thesis
  proof cases
    case 1
    then show ?thesis using assms by (intro rnd_le_double)
  next
    case 2
    then show ?thesis using rnd_nonpos[of q] by linarith
  next
    case 3
    have "- c \<le> rnd (- q)" using 3 assms by (intro double_le_rnd is_double_minus) simp_all
    then show ?thesis by (simp add: rnd_minus)
  qed
qed

lemma rnd_mono_ge:
  assumes "c \<le> q" and "is_double c"
  shows "c \<le> rnd q"
  using rnd_mono_le[of "- q" "- c"] assms by (simp add: rnd_minus is_double_minus)

lemma floor_rnd_between:
  assumes "of_int k \<le> q" and "q \<le> c" and "c < of_int k + 1"
    and "is_double (of_int k)" and "is_double c"
  shows "\<lfloor>rnd q\<rfloor> = k"
proof -
  have "of_int k \<le> rnd q" using assms(1,4) by (rule rnd_mono_ge)
  moreover have "rnd q \<le> c" using assms(2,5) by (rule rnd_mono_le)
  ultimately show ?thesis using assms(3) by (intro floor_unique) simp_all
qed

lemma js_rem_360:
  assumes "is_double x" and "0 \<le> x" and "x < 360"
  shows "js_rem x 360 = x"
proof -
  have "0 \<le> x / 360" "x / 360 < 1" using assms by simp_all
  then have "\<lfloor>x / 360\<rfloor> = 0" by (intro floor_unique) simp_all
  then have "trunc_rat (x / 360) = 0" using assms(2) by (simp add: trunc_rat_def)
  then show ?thesis using assms(1) by (simp add: js_rem_def rnd_double)
qed

lemma rnd_between:
  assumes "lo \<le> q" and "q \<le> hi" and "is_double lo" and "is_double hi"
  shows "lo \<le> rnd q" and "rnd q \<le> hi"
  using assms by (auto intro: rnd_mono_ge rnd_mono_le)

section \<open>Sharper bounds on the sine and on pi\<close>

lemma nondecreasing_from_0:
  fixes f f' :: "real \<Rightarrow> real"
  assumes "\<And>u. 0 \<le> u \<Longrightarrow> (f has_real_derivative f' u) (at u)"
    and "\<And>u. 0 \<le> u \<Longrightarrow> 0 \<le> f' u"
    and "0 \<le> x"
  shows "f 0 \<le> f x"
proof -
  have "\<And>u. \<lbrakk>0 \<le> u; u \<le> x\<rbrakk> \<Longrightarrow> \<exists>y. (f has_real_derivative y) (at u) \<and> 0 \<le> y"
    using assms(1,2) by blast
  then show ?thesis by (rule DERIV_nonneg_imp_nondecreasing[OF assms(3)])
qed

lemma cos_upper_4:
  fixes x :: real
  assumes "0 \<le> x"
  shows "cos x \<le> 1 - x\<^sup>2 / 2 + x ^ 4 / 24"
proof -
  have "(\<lambda>x. 1 - x\<^sup>2 / 2 + x ^ 4 / 24 - cos x) 0 \<le> 1 - x\<^sup>2 / 2 + x ^ 4 / 24 - cos x"
  proof (rule nondecreasing_from_0[where f' = "\<lambda>u. sin u - (u - u ^ 3 / 6)"])
    show "((\<lambda>x. 1 - x\<^sup>2 / 2 + x ^ 4 / 24 - cos x) has_real_derivative sin u - (u - u ^ 3 / 6)) (at u)"
      for u :: real
      by (auto intro!: derivative_eq_intros simp: field_simps)
    show "0 \<le> sin u - (u - u ^ 3 / 6)" if "0 \<le> u" for u :: real
      using sin_lower_cubic[OF that] by simp
  qed (rule assms)
  then show ?thesis by simp
qed

lemma sin_upper_5:
  fixes x :: real
  assumes "0 \<le> x"
  shows "sin x \<le> x - x ^ 3 / 6 + x ^ 5 / 120"
proof -
  have "(\<lambda>x. x - x ^ 3 / 6 + x ^ 5 / 120 - sin x) 0 \<le> x - x ^ 3 / 6 + x ^ 5 / 120 - sin x"
  proof (rule nondecreasing_from_0[where f' = "\<lambda>u. 1 - u\<^sup>2 / 2 + u ^ 4 / 24 - cos u"])
    show "((\<lambda>x. x - x ^ 3 / 6 + x ^ 5 / 120 - sin x) has_real_derivative
            1 - u\<^sup>2 / 2 + u ^ 4 / 24 - cos u) (at u)" for u :: real
      by (auto intro!: derivative_eq_intros simp: field_simps power2_eq_square)
    show "0 \<le> 1 - u\<^sup>2 / 2 + u ^ 4 / 24 - cos u" if "0 \<le> u" for u :: real
      using cos_upper_4[OF that] by simp
  qed (rule assms)
  then show ?thesis by simp
qed

lemma cos_lower_6:
  fixes x :: real
  assumes "0 \<le> x"
  shows "1 - x\<^sup>2 / 2 + x ^ 4 / 24 - x ^ 6 / 720 \<le> cos x"
proof -
  have "(\<lambda>x. cos x - (1 - x\<^sup>2 / 2 + x ^ 4 / 24 - x ^ 6 / 720)) 0
          \<le> cos x - (1 - x\<^sup>2 / 2 + x ^ 4 / 24 - x ^ 6 / 720)"
  proof (rule nondecreasing_from_0[where f' = "\<lambda>u. u - u ^ 3 / 6 + u ^ 5 / 120 - sin u"])
    show "((\<lambda>x. cos x - (1 - x\<^sup>2 / 2 + x ^ 4 / 24 - x ^ 6 / 720)) has_real_derivative
            u - u ^ 3 / 6 + u ^ 5 / 120 - sin u) (at u)" for u :: real
      by (auto intro!: derivative_eq_intros simp: field_simps)
    show "0 \<le> u - u ^ 3 / 6 + u ^ 5 / 120 - sin u" if "0 \<le> u" for u :: real
      using sin_upper_5[OF that] by simp
  qed (rule assms)
  then show ?thesis by simp
qed

lemma sin_lower_7:
  fixes x :: real
  assumes "0 \<le> x"
  shows "x - x ^ 3 / 6 + x ^ 5 / 120 - x ^ 7 / 5040 \<le> sin x"
proof -
  have "(\<lambda>x. sin x - (x - x ^ 3 / 6 + x ^ 5 / 120 - x ^ 7 / 5040)) 0
          \<le> sin x - (x - x ^ 3 / 6 + x ^ 5 / 120 - x ^ 7 / 5040)"
  proof (rule nondecreasing_from_0[where
        f' = "\<lambda>u. cos u - (1 - u\<^sup>2 / 2 + u ^ 4 / 24 - u ^ 6 / 720)"])
    show "((\<lambda>x. sin x - (x - x ^ 3 / 6 + x ^ 5 / 120 - x ^ 7 / 5040)) has_real_derivative
            cos u - (1 - u\<^sup>2 / 2 + u ^ 4 / 24 - u ^ 6 / 720)) (at u)" for u :: real
      by (auto intro!: derivative_eq_intros simp: field_simps power2_eq_square)
    show "0 \<le> cos u - (1 - u\<^sup>2 / 2 + u ^ 4 / 24 - u ^ 6 / 720)" if "0 \<le> u" for u :: real
      using cos_lower_6[OF that] by simp
  qed (rule assms)
  then show ?thesis by simp
qed

lemma cos_upper_8:
  fixes x :: real
  assumes "0 \<le> x"
  shows "cos x \<le> 1 - x\<^sup>2 / 2 + x ^ 4 / 24 - x ^ 6 / 720 + x ^ 8 / 40320"
proof -
  have "(\<lambda>x. 1 - x\<^sup>2 / 2 + x ^ 4 / 24 - x ^ 6 / 720 + x ^ 8 / 40320 - cos x) 0
          \<le> 1 - x\<^sup>2 / 2 + x ^ 4 / 24 - x ^ 6 / 720 + x ^ 8 / 40320 - cos x"
  proof (rule nondecreasing_from_0[where
        f' = "\<lambda>u. sin u - (u - u ^ 3 / 6 + u ^ 5 / 120 - u ^ 7 / 5040)"])
    show "((\<lambda>x. 1 - x\<^sup>2 / 2 + x ^ 4 / 24 - x ^ 6 / 720 + x ^ 8 / 40320 - cos x)
            has_real_derivative sin u - (u - u ^ 3 / 6 + u ^ 5 / 120 - u ^ 7 / 5040)) (at u)"
      for u :: real
      by (auto intro!: derivative_eq_intros simp: field_simps)
    show "0 \<le> sin u - (u - u ^ 3 / 6 + u ^ 5 / 120 - u ^ 7 / 5040)" if "0 \<le> u" for u :: real
      using sin_lower_7[OF that] by simp
  qed (rule assms)
  then show ?thesis by simp
qed

lemma sin_upper_9:
  fixes x :: real
  assumes "0 \<le> x"
  shows "sin x \<le> x - x ^ 3 / 6 + x ^ 5 / 120 - x ^ 7 / 5040 + x ^ 9 / 362880"
proof -
  have "(\<lambda>x. x - x ^ 3 / 6 + x ^ 5 / 120 - x ^ 7 / 5040 + x ^ 9 / 362880 - sin x) 0
          \<le> x - x ^ 3 / 6 + x ^ 5 / 120 - x ^ 7 / 5040 + x ^ 9 / 362880 - sin x"
  proof (rule nondecreasing_from_0[where
        f' = "\<lambda>u. 1 - u\<^sup>2 / 2 + u ^ 4 / 24 - u ^ 6 / 720 + u ^ 8 / 40320 - cos u"])
    show "((\<lambda>x. x - x ^ 3 / 6 + x ^ 5 / 120 - x ^ 7 / 5040 + x ^ 9 / 362880 - sin x)
            has_real_derivative
            1 - u\<^sup>2 / 2 + u ^ 4 / 24 - u ^ 6 / 720 + u ^ 8 / 40320 - cos u) (at u)"
      for u :: real
      by (auto intro!: derivative_eq_intros simp: field_simps power2_eq_square)
    show "0 \<le> 1 - u\<^sup>2 / 2 + u ^ 4 / 24 - u ^ 6 / 720 + u ^ 8 / 40320 - cos u"
      if "0 \<le> u" for u :: real
      using cos_upper_8[OF that] by simp
  qed (rule assms)
  then show ?thesis by simp
qed

lemma pi_greater_314159: "3.14159 < pi"
proof (rule ccontr)
  assume "\<not> 3.14159 < pi"
  then have p: "pi / 6 \<le> 314159 / 600000" by simp
  have "sin (pi / 6) \<le> sin (314159 / 600000)"
    using p pi_ge_3 by (subst sin_mono_le_eq) simp_all
  then have "1 / 2 \<le> sin (314159 / 600000 :: real)" by (simp add: sin_30)
  also have "\<dots> \<le> 314159 / 600000 - (314159 / 600000) ^ 3 / 6 + (314159 / 600000) ^ 5 / 120
      - (314159 / 600000) ^ 7 / 5040 + (314159 / 600000) ^ 9 / 362880"
    by (rule sin_upper_9) simp
  also have "\<dots> < 1 / 2" by (simp add: power_divide)
  finally show False by simp
qed

lemma pi_less_31416: "pi < 3.1416"
proof (rule ccontr)
  assume "\<not> pi < 3.1416"
  then have p: "31416 / 60000 \<le> pi / 6" by simp
  have "(1 / 2 :: real) < 31416 / 60000 - (31416 / 60000) ^ 3 / 6 + (31416 / 60000) ^ 5 / 120
      - (31416 / 60000) ^ 7 / 5040"
    by (simp add: power_divide)
  also have "\<dots> \<le> sin (31416 / 60000)" by (rule sin_lower_7) simp
  also have "\<dots> \<le> sin (pi / 6)"
    using p pi_ge_3 by (subst sin_mono_le_eq) simp_all
  finally show False by (simp add: sin_30)
qed

text \<open>The sine just below a multiple of \<open>2 pi\<close>, from bounds on the distance to it.\<close>

lemma sin_small_bounds:
  fixes d :: real
  assumes "0 \<le> lo" and "lo \<le> d" and "d \<le> hi"
  shows "lo - hi ^ 3 / 6 \<le> sin d" and "sin d \<le> hi - lo ^ 3 / 6 + hi ^ 5 / 120"
proof -
  have d0: "0 \<le> d" using assms by simp
  have p3: "lo ^ 3 \<le> d ^ 3" "d ^ 3 \<le> hi ^ 3" and p5: "d ^ 5 \<le> hi ^ 5"
    using assms d0 by (auto intro: power_mono)
  show "lo - hi ^ 3 / 6 \<le> sin d" using sin_lower_cubic[OF d0] assms(2) p3 by linarith
  show "sin d \<le> hi - lo ^ 3 / 6 + hi ^ 5 / 120" using sin_upper_5[OF d0] assms(3) p3 p5 by linarith
qed

lemma sin_mean_anomaly_j2000:
  "- 0.04315 \<le> sin (109775958116633 / 2 ^ 44 :: real)"
  "sin (109775958116633 / 2 ^ 44 :: real) \<le> - 0.04312"
proof -
  define g :: real where "g = 109775958116633 / 2 ^ 44"
  define d where "d = 2 * pi - g"
  have g: "g \<le> 6.240041" "6.24004 \<le> g" by (simp_all add: g_def)
  have d: "0.043139 \<le> d" "d \<le> 0.04316"
    using g pi_greater_314159 pi_less_31416 by (simp_all add: d_def)
  have s: "sin d = - sin g" by (simp add: d_def)
  have "0.043139 - 0.04316 ^ 3 / 6 \<le> sin d"
    and "sin d \<le> 0.04316 - 0.043139 ^ 3 / 6 + 0.04316 ^ 5 / 120"
    using sin_small_bounds[OF _ d] by simp_all
  moreover have "(0.04312 :: real) \<le> 0.043139 - 0.04316 ^ 3 / 6"
    and "(0.04316 :: real) - 0.043139 ^ 3 / 6 + 0.04316 ^ 5 / 120 \<le> 0.04315"
    by (simp_all add: power_divide)
  ultimately have "0.04312 \<le> sin d" "sin d \<le> 0.04315" by linarith+
  then show "- 0.04315 \<le> sin (109775958116633 / 2 ^ 44 :: real)"
    and "sin (109775958116633 / 2 ^ 44 :: real) \<le> - 0.04312"
    unfolding s g_def by linarith+
qed

lemma sin_twice_mean_anomaly_j2000:
  "- 0.08622 \<le> sin (109775958116633 / 2 ^ 43 :: real)"
  "sin (109775958116633 / 2 ^ 43 :: real) \<le> - 0.08617"
proof -
  define g :: real where "g = 109775958116633 / 2 ^ 43"
  define d where "d = 2 * pi - g + 2 * pi"
  have g: "g \<le> 12.480082" "12.48008 \<le> g" by (simp_all add: g_def)
  have d: "0.086278 \<le> d" "d \<le> 0.08632"
    using g pi_greater_314159 pi_less_31416 by (simp_all add: d_def)
  have "sin d = sin (2 * pi - g)" unfolding d_def by (rule sin_periodic)
  then have s: "sin d = - sin g" by simp
  have "0.086278 - 0.08632 ^ 3 / 6 \<le> sin d"
    and "sin d \<le> 0.08632 - 0.086278 ^ 3 / 6 + 0.08632 ^ 5 / 120"
    using sin_small_bounds[OF _ d] by simp_all
  moreover have "(0.08617 :: real) \<le> 0.086278 - 0.08632 ^ 3 / 6"
    and "(0.08632 :: real) - 0.086278 ^ 3 / 6 + 0.08632 ^ 5 / 120 \<le> 0.08622"
    by (simp_all add: power_divide)
  ultimately have "0.08617 \<le> sin d" "sin d \<le> 0.08622" by linarith+
  then show "- 0.08622 \<le> sin (109775958116633 / 2 ^ 43 :: real)"
    and "sin (109775958116633 / 2 ^ 43 :: real) \<le> - 0.08617"
    unfolding s g_def by linarith+
qed

section \<open>The analytic formula at J2000.0\<close>

lemma literal_280_460: "rnd 280.460 = 4933904498016911 / 2 ^ 44"
  using rnd_eval[where e = "-44" and x = "280.460"]
  by (simp add: round_even_def Let_def)

lemma literal_357_528: "rnd 357.528 = 1572424773021991 / 2 ^ 42"
  using rnd_eval[where e = "-44" and x = "357.528"]
  by (simp add: round_even_def Let_def)

lemma literal_1_915: "rnd 1.915 = 2156098321603625 / 2 ^ 50"
  using rnd_eval[where e = "-52" and x = "1.915"]
  by (simp add: round_even_def Let_def)

lemma literal_0_020: "rnd 0.020 = 5764607523034235 / 2 ^ 58"
  using rnd_eval[where e = "-58" and x = "0.020"]
  by (simp add: round_even_def Let_def)

lemma double_280_460: "is_double (4933904498016911 / 2 ^ 44)"
  using dyadic_double[of 4933904498016911 44] by simp

lemma double_357_528: "is_double (1572424773021991 / 2 ^ 42)"
  using dyadic_double[of 1572424773021991 42] by simp

lemma g_times_pi:
  "js_mul (1572424773021991 / 2 ^ 42) Math_PI = 4939918115248485 / 2 ^ 42"
  unfolding js_mul_def Math_PI_def
  using rnd_eval[where e = "-42" and x = "1572424773021991 / 2 ^ 42 * (884279719003555 / 2 ^ 48)"]
  by (simp add: round_even_def Let_def)

lemma g_radians:
  "js_div (4939918115248485 / 2 ^ 42) 180 = 109775958116633 / 2 ^ 44"
  unfolding js_div_def
  using rnd_eval[where e = "-50" and x = "4939918115248485 / 2 ^ 42 / 180"]
  by (simp add: round_even_def Let_def)

lemma gRad_j2000_eq: "gRad_j2000 = 109775958116633 / 2 ^ 44"
  unfolding gRad_j2000_def literal_357_528 g_times_pi g_radians by (rule refl)

lemma twice_gRad: "js_mul 2 (109775958116633 / 2 ^ 44) = 109775958116633 / 2 ^ 43"
proof -
  have "is_double (109775958116633 / 2 ^ 43)"
    using dyadic_double[of 109775958116633 43] by simp
  then have "rnd (109775958116633 / 2 ^ 43) = 109775958116633 / 2 ^ 43" by (rule rnd_double)
  then show ?thesis by (simp add: js_mul_def)
qed

lemma time_fields_j2000:
  "MonthFromTime 946728000000 = 0" "YearFromTime 946728000000 = 2000"
  "DateFromTime 946728000000 = 1" "HourFromTime 946728000000 = 12"
  "MinFromTime 946728000000 = 0" "SecFromTime 946728000000 = 0"
  by (simp_all add: MonthFromTime_def YearFromTime_def DateFromTime_def HourFromTime_def
      MinFromTime_def SecFromTime_def Day_j2000 civil_10957)

lemma julian_floors:
  "\<lfloor>rnd (13 / 12)\<rfloor> = 1" "\<lfloor>rnd (1532 / 5)\<rfloor> = 306" "\<lfloor>rnd (6799 / 4)\<rfloor> = 1699"
  "\<lfloor>rnd (6799 / 100)\<rfloor> = 67" "\<lfloor>rnd (6799 / 400)\<rfloor> = 16"
proof -
  show "\<lfloor>rnd (13 / 12)\<rfloor> = 1"
    using floor_rnd_between[of 1 "13 / 12" "3 / 2"] int_double[of 1] dyadic_double[of 3 1]
    by simp
  show "\<lfloor>rnd (1532 / 5)\<rfloor> = 306"
    using floor_rnd_between[of 306 "1532 / 5" "613 / 2"] int_double[of 306]
      dyadic_double[of 613 1]
    by simp
  show "\<lfloor>rnd (6799 / 4)\<rfloor> = 1699"
    using floor_rnd_between[of 1699 "6799 / 4" "6799 / 4"] int_double[of 1699]
      dyadic_double[of 6799 2]
    by simp
  show "\<lfloor>rnd (6799 / 100)\<rfloor> = 67"
    using floor_rnd_between[of 67 "6799 / 100" "8703 / 2 ^ 7"] int_double[of 67]
      dyadic_double[of 8703 7]
    by simp
  show "\<lfloor>rnd (6799 / 400)\<rfloor> = 16"
    using floor_rnd_between[of 16 "6799 / 400" "8703 / 2 ^ 9"] int_double[of 16]
      dyadic_double[of 8703 9]
    by simp
qed

lemma rnd_12: "rnd 12 = 12"
  using int_double[of 12] by (simp add: rnd_double)

lemma rnd_2451545: "rnd 2451545 = 2451545"
  using int_double[of 2451545] by (simp add: rnd_double)

lemma julian_day_j2000:
  assumes "hostOffset e = 0"
  shows "getJulianDayNumber e 946728000000 = 2451545"
  by (simp add: getJulianDayNumber_def assms time_fields_j2000 Math_floor_def js_div_def
      js_add_def js_minus_def julian_floors rnd_12 rnd_2451545)

lemma days_since_j2000:
  assumes "hostOffset e = 0"
  shows "js_minus (getJulianDayNumber e 946728000000) 2451545.0 = 0"
  by (simp add: julian_day_j2000[OF assms] js_minus_def)

lemma mean_longitude_j2000:
  "js_rem (js_add (rnd 280.460) (js_mul (rnd 0.9856474) 0)) 360 = 4933904498016911 / 2 ^ 44"
proof -
  have "js_add (rnd 280.460) (js_mul (rnd 0.9856474) 0) = rnd (rnd 280.460)"
    by (simp add: js_add_def js_mul_def)
  also have "\<dots> = 4933904498016911 / 2 ^ 44"
    unfolding literal_280_460 using double_280_460 by (rule rnd_double)
  finally have a: "js_add (rnd 280.460) (js_mul (rnd 0.9856474) 0) = 4933904498016911 / 2 ^ 44" .
  show ?thesis unfolding a using js_rem_360[OF double_280_460] by simp
qed

lemma mean_anomaly_j2000:
  "js_rem (js_add (rnd 357.528) (js_mul (rnd 0.9856003) 0)) 360 = 1572424773021991 / 2 ^ 42"
proof -
  have "js_add (rnd 357.528) (js_mul (rnd 0.9856003) 0) = rnd (rnd 357.528)"
    by (simp add: js_add_def js_mul_def)
  also have "\<dots> = 1572424773021991 / 2 ^ 42"
    unfolding literal_357_528 using double_357_528 by (rule rnd_double)
  finally have a: "js_add (rnd 357.528) (js_mul (rnd 0.9856003) 0) = 1572424773021991 / 2 ^ 42" .
  show ?thesis unfolding a using js_rem_360[OF double_357_528] by simp
qed

lemma calculateSunLongitude_j2000:
  assumes "hostOffset e = 0"
  shows "calculateSunLongitude e 946728000000 =
     (let lambda = js_rem (js_add
            (js_add (4933904498016911 / 2 ^ 44)
               (js_mul (2156098321603625 / 2 ^ 50) (Math_sin e (109775958116633 / 2 ^ 44))))
            (js_mul (5764607523034235 / 2 ^ 58) (Math_sin e (109775958116633 / 2 ^ 43)))) 360
      in if lambda < 0 then js_add lambda 360 else lambda)"
proof -
  have L: "(if (4933904498016911 / 2 ^ 44 :: rat) < 0 then js_add (4933904498016911 / 2 ^ 44) 360
            else 4933904498016911 / 2 ^ 44) = 4933904498016911 / 2 ^ 44"
    by simp
  have g: "(if (1572424773021991 / 2 ^ 42 :: rat) < 0 then js_add (1572424773021991 / 2 ^ 42) 360
            else 1572424773021991 / 2 ^ 42) = 1572424773021991 / 2 ^ 42"
    by simp
  show ?thesis
    unfolding calculateSunLongitude_def Let_def days_since_j2000[OF assms]
      mean_longitude_j2000 mean_anomaly_j2000 L g g_times_pi g_radians twice_gRad
      literal_1_915 literal_0_020
    by (rule refl)
qed

lemma longitude_j2000_bounds:
  assumes s1: "- (4325 / 100000) \<le> s1" "s1 \<le> - (4302 / 100000)"
    and s2: "- (8632 / 100000) \<le> s2" "s2 \<le> - (8607 / 100000)"
  shows "293994966 / 2 ^ 20
           \<le> js_rem (js_add (js_add (4933904498016911 / 2 ^ 44)
                (js_mul (2156098321603625 / 2 ^ 50) s1))
             (js_mul (5764607523034235 / 2 ^ 58) s2)) 360"
    and "js_rem (js_add (js_add (4933904498016911 / 2 ^ 44)
                (js_mul (2156098321603625 / 2 ^ 50) s1))
             (js_mul (5764607523034235 / 2 ^ 58) s2)) 360
           \<le> 293995435 / 2 ^ 20"
proof -
  define lam where "lam = js_rem (js_add (js_add (4933904498016911 / 2 ^ 44)
                (js_mul (2156098321603625 / 2 ^ 50) s1))
             (js_mul (5764607523034235 / 2 ^ 58) s2)) 360"
  define p1 where "p1 = js_mul (2156098321603625 / 2 ^ 50) s1"
  define q1 where "q1 = js_add (4933904498016911 / 2 ^ 44) p1"
  define p2 where "p2 = js_mul (5764607523034235 / 2 ^ 58) s2"
  define l0 where "l0 = js_add q1 p2"
  have d: "is_double (- (86847 / 2 ^ 20))" "is_double (- (86385 / 2 ^ 20))"
    "is_double (293996777 / 2 ^ 20)" "is_double (293997240 / 2 ^ 20)"
    "is_double (- (1811 / 2 ^ 20))" "is_double (- (1805 / 2 ^ 20))"
    "is_double (293994966 / 2 ^ 20)" "is_double (293995435 / 2 ^ 20)"
    using dyadic_double[of "- 86847" 20] dyadic_double[of "- 86385" 20]
      dyadic_double[of 293996777 20] dyadic_double[of 293997240 20]
      dyadic_double[of "- 1811" 20] dyadic_double[of "- 1805" 20]
      dyadic_double[of 293994966 20] dyadic_double[of 293995435 20]
    by simp_all
  have b1: "- (86847 / 2 ^ 20) \<le> 2156098321603625 / 2 ^ 50 * s1"
    "2156098321603625 / 2 ^ 50 * s1 \<le> - (86385 / 2 ^ 20)"
    using s1 by simp_all
  have p1: "- (86847 / 2 ^ 20) \<le> p1" "p1 \<le> - (86385 / 2 ^ 20)"
    unfolding p1_def js_mul_def by (rule rnd_mono_ge[OF b1(1) d(1)], rule rnd_mono_le[OF b1(2) d(2)])
  have b2: "293996777 / 2 ^ 20 \<le> 4933904498016911 / 2 ^ 44 + p1"
    "4933904498016911 / 2 ^ 44 + p1 \<le> 293997240 / 2 ^ 20"
    using p1 by simp_all
  have q1: "293996777 / 2 ^ 20 \<le> q1" "q1 \<le> 293997240 / 2 ^ 20"
    unfolding q1_def js_add_def by (rule rnd_mono_ge[OF b2(1) d(3)], rule rnd_mono_le[OF b2(2) d(4)])
  have b3: "- (1811 / 2 ^ 20) \<le> 5764607523034235 / 2 ^ 58 * s2"
    "5764607523034235 / 2 ^ 58 * s2 \<le> - (1805 / 2 ^ 20)"
    using s2 by simp_all
  have p2: "- (1811 / 2 ^ 20) \<le> p2" "p2 \<le> - (1805 / 2 ^ 20)"
    unfolding p2_def js_mul_def by (rule rnd_mono_ge[OF b3(1) d(5)], rule rnd_mono_le[OF b3(2) d(6)])
  have b4: "293994966 / 2 ^ 20 \<le> q1 + p2" "q1 + p2 \<le> 293995435 / 2 ^ 20"
    using q1 p2 by simp_all
  have l0: "293994966 / 2 ^ 20 \<le> l0" "l0 \<le> 293995435 / 2 ^ 20"
    unfolding l0_def js_add_def by (rule rnd_mono_ge[OF b4(1) d(7)], rule rnd_mono_le[OF b4(2) d(8)])
  have "0 \<le> l0 / 360" "l0 / 360 < 1" using l0 by simp_all
  then have "\<lfloor>l0 / 360\<rfloor> = 0" by (intro floor_unique) simp_all
  moreover have "0 \<le> l0 / 360" using l0 by simp
  ultimately have "trunc_rat (l0 / 360) = 0" by (simp add: trunc_rat_def)
  then have r: "js_rem l0 360 = rnd l0" by (simp add: js_rem_def)
  have lam: "lam = rnd l0" unfolding lam_def using r by (simp only: l0_def q1_def p1_def p2_def)
  have "293994966 / 2 ^ 20 \<le> lam" unfolding lam using l0(1) d(7) by (rule rnd_mono_ge)
  then show "293994966 / 2 ^ 20
           \<le> js_rem (js_add (js_add (4933904498016911 / 2 ^ 44)
                (js_mul (2156098321603625 / 2 ^ 50) s1))
             (js_mul (5764607523034235 / 2 ^ 58) s2)) 360"
    unfolding lam_def .
  have "lam \<le> 293995435 / 2 ^ 20" unfolding lam using l0(2) d(8) by (rule rnd_mono_le)
  then show "js_rem (js_add (js_add (4933904498016911 / 2 ^ 44)
                (js_mul (2156098321603625 / 2 ^ 50) s1))
             (js_mul (5764607523034235 / 2 ^ 58) s2)) 360
           \<le> 293995435 / 2 ^ 20"
    unfolding lam_def .
qed

lemma sin_accurate_bounds:
  assumes "sin_accurate e x" and "a \<le> sin (real_of_rat x)" and "sin (real_of_rat x) \<le> b"
  shows "a - 1 / 10 ^ 4 \<le> real_of_rat (Math_sin e x)"
    and "real_of_rat (Math_sin e x) \<le> b + 1 / 10 ^ 4"
  using assms unfolding sin_accurate_def by linarith+

lemma birthDate_j2000: "birthDate ''2000-01-01'' ''12:00'' = Some 946728000000"
  unfolding birthDate_def split_date_2000_01_01 split_time_12_00 Let_def
  by (simp add: js_index_def ToNumber_def Date_UTC_2000_01_01)

lemma calculateSunLongitude_host:
  "calculateSunLongitude e t = calculateSunLongitude (e\<lparr>hostOffset := 0\<rparr>) (t + hostOffset e)"
  by (simp add: calculateSunLongitude_def getJulianDayNumber_def)

lemma example_sines:
  "Math_sin example_env (109775958116633 / 2 ^ 44) = - (6215854530937775 / 2 ^ 57)"
  "Math_sin example_env (109775958116633 / 2 ^ 43) = - (194064692912115 / 2 ^ 51)"
  by (simp_all add: example_env_def)

lemma example_first_term:
  "js_mul (2156098321603625 / 2 ^ 50) (- (6215854530937775 / 2 ^ 57))
     = - (743960089171615 / 2 ^ 53)"
proof -
  have "rnd (2156098321603625 / 2 ^ 50 * (6215854530937775 / 2 ^ 57))
          = 743960089171615 / 2 ^ 53"
    using rnd_eval[where e = "-56"
        and x = "2156098321603625 / 2 ^ 50 * (6215854530937775 / 2 ^ 57)"]
    by (simp add: round_even_def Let_def)
  then show ?thesis
    using rnd_minus[of "2156098321603625 / 2 ^ 50 * (6215854530937775 / 2 ^ 57)"]
    by (simp add: js_mul_def)
qed

lemma example_first_sum:
  "js_add (4933904498016911 / 2 ^ 44) (- (743960089171615 / 2 ^ 53))
     = 1233112862741937 / 2 ^ 42"
  unfolding js_add_def
  using rnd_eval[where e = "-44"
      and x = "4933904498016911 / 2 ^ 44 + - (743960089171615 / 2 ^ 53)"]
  by (simp add: round_even_def Let_def)

lemma example_second_term:
  "js_mul (5764607523034235 / 2 ^ 58) (- (194064692912115 / 2 ^ 51))
     = - (7948889821680231 / 2 ^ 62)"
proof -
  have "rnd (5764607523034235 / 2 ^ 58 * (194064692912115 / 2 ^ 51))
          = 7948889821680231 / 2 ^ 62"
    using rnd_eval[where e = "-62"
        and x = "5764607523034235 / 2 ^ 58 * (194064692912115 / 2 ^ 51)"]
    by (simp add: round_even_def Let_def)
  then show ?thesis
    using rnd_minus[of "5764607523034235 / 2 ^ 58 * (194064692912115 / 2 ^ 51)"]
    by (simp add: js_mul_def)
qed

lemma example_second_sum:
  "js_add (1233112862741937 / 2 ^ 42) (- (7948889821680231 / 2 ^ 62))
     = 616552641044935 / 2 ^ 41"
  unfolding js_add_def
  using rnd_eval[where e = "-44"
      and x = "1233112862741937 / 2 ^ 42 + - (7948889821680231 / 2 ^ 62)"]
  by (simp add: round_even_def Let_def)

lemma example_longitude:
  "calculateSunLongitude example_env 946728000000 = 616552641044935 / 2 ^ 41"
proof -
  have h: "hostOffset example_env = 0" by (simp add: example_env_def)
  have d: "is_double (616552641044935 / 2 ^ 41)"
    using dyadic_double[of 616552641044935 41] by simp
  have r: "js_rem (616552641044935 / 2 ^ 41) 360 = 616552641044935 / 2 ^ 41"
    using js_rem_360[OF d] by simp
  have i: "(if (616552641044935 / 2 ^ 41 :: rat) < 0 then js_add (616552641044935 / 2 ^ 41) 360
            else 616552641044935 / 2 ^ 41) = 616552641044935 / 2 ^ 41"
    by simp
  show ?thesis
    unfolding calculateSunLongitude_j2000[OF h] example_sines example_first_term
      example_first_sum example_second_term example_second_sum r Let_def i
    by (rule refl)
qed

lemma abs_diff_le:
  fixes a b c s t :: real
  assumes "a \<le> s" and "s \<le> b" and "a \<le> t" and "t \<le> b" and "b - a \<le> c"
  shows "\<bar>t - s\<bar> \<le> c"
  using assms by linarith

section \<open>Claims about the wheel\<close>

text \<open>
  C1. As stated, the claim fails: \<open>getGeneKeyDegreeRange\<close> returns its bounds through
  \<open>toFixed(2)\<close>, as strings rounded to two decimals. Longitude \<open>5.625\<close> lies in
  segment 1 (Gene Key 49), whose returned range starts at \<open>"5.63"\<close>, above the longitude.
\<close>

theorem range_start_above_longitude:
  "is_double (45 / 8) \<and> (0::rat) \<le> 45 / 8 \<and> (45 / 8 :: rat) < 360 \<and>
   mapLongitudeToGeneKey (45 / 8) = Some 49 \<and>
   getGeneKeyDegreeRange 49 = Inr \<lparr>start = ''5.63'', end' = ''11.25'', geneKey = 49\<rparr> \<and>
   \<not> js_le (Number ''5.63'') (Num (45 / 8))"
proof -
  have d: "is_double (45 / 8)" using dyadic_double[of 45 3] by simp
  have i: "segmentIndex (45 / 8) = 1" using segmentIndex_floor[OF d] by simp
  have k: "mapLongitudeToGeneKey (45 / 8) = Some 49"
    by (simp add: mapLongitudeToGeneKey_def i js_index_def GENE_KEY_WHEEL_def)
  have w: "GENE_KEY_WHEEL ! Suc 0 = 49" by (simp add: GENE_KEY_WHEEL_def)
  have r: "getGeneKeyDegreeRange 49 = Inr \<lparr>start = ''5.63'', end' = ''11.25'', geneKey = 49\<rparr>"
    using range_of_wheel_entry[of 1] by (simp add: w toFixed_def digits.simps Let_def)
  have n: "rnd (563 / 100) = of_int 6338816475523973 / 2 ^ 50"
    by (subst rnd_eval[where e = "- 50"]) (simp_all add: round_even_def Let_def)
  have "is_double (rnd (563 / 100))" unfolding n by (rule dyadic_double) simp_all
  then have "Number ''5.63'' = Num (rnd (563 / 100))"
    by (simp add: Number_simps toDouble_def is_double_def abs_if split: if_splits)
  then have c: "\<not> js_le (Number ''5.63'') (Num (45 / 8))" by (simp add: n)
  show ?thesis using d k r c by simp
qed

text \<open>
  C1, as the code has it: for every double \<open>x\<close> in \<open>[0,360)\<close> the computed segment index
  is the one \<open>i\<close> in 0..63 with \<open>i * 5.625 \<le> x < (i + 1) * 5.625\<close> (no other
  segment contains \<open>x\<close>), the Gene Key is the table entry at \<open>i\<close>, and the range
  returned for that Gene Key consists of these two exact bounds, each rounded to two
  decimals by \<open>toFixed\<close>.
\<close>

theorem longitude_segment_and_range:
  assumes "is_double x" and "0 \<le> x" and "x < 360"
  shows "\<exists>i < 64.
           segmentIndex x = int i \<and>
           mapLongitudeToGeneKey x = Some (GENE_KEY_WHEEL ! i) \<and>
           of_nat i * (45 / 8) \<le> x \<and> x < of_nat (i + 1) * (45 / 8) \<and>
           (\<forall>j. of_nat j * (45 / 8) \<le> x \<and> x < of_nat (j + 1) * (45 / 8) \<longrightarrow> j = i) \<and>
           getGeneKeyDegreeRange (GENE_KEY_WHEEL ! i) =
             Inr \<lparr>start = toFixed (of_nat i * (45 / 8)) 2,
                  end' = toFixed (of_nat (i + 1) * (45 / 8)) 2,
                  geneKey = GENE_KEY_WHEEL ! i\<rparr>"
proof -
  define q where "q = x / (45 / 8)"
  define i where "i = nat \<lfloor>q\<rfloor>"
  have q0: "0 \<le> q" and q64: "q < 64" using assms by (simp_all add: q_def)
  have f0: "0 \<le> \<lfloor>q\<rfloor>" using q0 by simp
  have f63: "\<lfloor>q\<rfloor> < 64" using q64 by (simp add: floor_less_iff)
  have i64: "i < 64" unfolding i_def using f0 f63 by linarith
  have fi: "\<lfloor>q\<rfloor> = int i" using f0 by (simp add: i_def)
  have si: "segmentIndex x = int i"
    using segmentIndex_floor[OF assms] fi unfolding q_def by simp
  have key: "mapLongitudeToGeneKey x = Some (GENE_KEY_WHEEL ! i)"
    using i64 by (simp add: mapLongitudeToGeneKey_def si js_index_def wheel_length)
  have "of_int \<lfloor>q\<rfloor> \<le> q" and "q < of_int \<lfloor>q\<rfloor> + 1" by linarith+
  then have bq: "of_nat i \<le> q" "q < of_nat (i + 1)" by (simp_all add: fi)
  have lo: "of_nat i * (45 / 8) \<le> x" and hi: "x < of_nat (i + 1) * (45 / 8)"
    using bq by (simp_all add: q_def field_simps)
  have uniq: "j = i" if "of_nat j * (45 / 8) \<le> x \<and> x < of_nat (j + 1) * (45 / 8)" for j
  proof -
    have "of_nat j \<le> q" "q < of_nat (j + 1)" using that by (simp_all add: q_def field_simps)
    then have "\<lfloor>q\<rfloor> = int j" by (intro floor_unique) simp_all
    then show ?thesis using fi by simp
  qed
  show ?thesis
    using i64 si key lo hi uniq range_of_wheel_entry[OF i64] by blast
qed

theorem longitude_segment_and_range_witness:
  "is_double (45 / 8) \<and> (0::rat) \<le> 45 / 8 \<and> (45 / 8 :: rat) < 360 \<and>
   (\<exists>i < 64. segmentIndex (45 / 8) = int i \<and>
      mapLongitudeToGeneKey (45 / 8) = Some (GENE_KEY_WHEEL ! i) \<and>
      of_nat i * (45 / 8) \<le> (45 / 8 :: rat) \<and> (45 / 8 :: rat) < of_nat (i + 1) * (45 / 8))"
proof -
  have d: "is_double (45 / 8)" using dyadic_double[of 45 3] by simp
  show ?thesis using d longitude_segment_and_range[OF d] by fastforce
qed


text \<open>
  C2. \<open>mapLongitudeToGeneKey\<close> maps longitude \<open>0.0\<close> to segment index 0 and Gene Key
  13, and longitude \<open>359.99\<close> (the double nearest to 35999/100) to segment index 63 and
  Gene Key 19.
\<close>

theorem wheel_boundary_scenario:
  "segmentIndex 0 = 0 \<and> mapLongitudeToGeneKey 0 = Some 13 \<and>
   segmentIndex (rnd (35999 / 100)) = 63 \<and> mapLongitudeToGeneKey (rnd (35999 / 100)) = Some 19"
proof -
  have r: "rnd (35999 / 100) = of_int 1583252763532329 / 2 ^ 42"
    by (subst rnd_eval[where e = "- 44"]) (simp_all add: round_even_def Let_def)
  have d0: "is_double 0" using int_double[of 0] by simp
  have d: "is_double (rnd (35999 / 100))" unfolding r by (rule dyadic_double) simp_all
  have i0: "segmentIndex 0 = 0" using segmentIndex_floor[OF d0] by simp
  have i1: "segmentIndex (rnd (35999 / 100)) = 63"
    by (subst segmentIndex_floor[OF d]) (simp_all add: r)
  show ?thesis
    by (simp add: mapLongitudeToGeneKey_def i0 i1 js_index_def GENE_KEY_WHEEL_def)
qed

text \<open>
  C3. The claim is that every finite longitude, also a negative one of tiny magnitude, is
  normalised into \<open>[0,360)\<close> and gets an index of at most 63 and a defined Gene Key.
  The code adds 360 to a negative remainder in double arithmetic: for \<open>-2^-60\<close> the sum
  rounds to exactly 360, the index is 64, and the table lookup is \<open>undefined\<close>.
\<close>

theorem negative_epsilon_index_64:
  "is_double (- (1 / 2 ^ 60)) \<and> normalizedLongitude (- (1 / 2 ^ 60)) = 360 \<and>
   segmentIndex (- (1 / 2 ^ 60)) = 64 \<and> mapLongitudeToGeneKey (- (1 / 2 ^ 60)) = None"
proof -
  have d: "is_double (- (1 / 2 ^ 60))" using dyadic_double[of "- 1" 60] by simp
  have "trunc_rat (- (1 / 2 ^ 60) / 360) = 0" by (simp add: trunc_rat_def ceiling_def)
  then have "js_rem (- (1 / 2 ^ 60)) 360 = - (1 / 2 ^ 60)"
    using d by (simp add: js_rem_def rnd_double)
  moreover have "js_add (- (1 / 2 ^ 60)) 360 = 360"
    unfolding js_add_def
    by (subst rnd_eval[where e = "- 44"]) (simp_all add: round_even_def Let_def)
  ultimately have n: "normalizedLongitude (- (1 / 2 ^ 60)) = 360"
    by (simp add: normalizedLongitude_def)
  have "is_double 64" using int_double[of 64] by simp
  then have "js_div 360 (45 / 8) = 64" by (simp add: js_div_def rnd_double)
  then have i: "segmentIndex (- (1 / 2 ^ 60)) = 64"
    unfolding segmentIndex_def n segmentSize_eq Math_floor_def by simp
  have "mapLongitudeToGeneKey (- (1 / 2 ^ 60)) = None"
    unfolding mapLongitudeToGeneKey_def i by (simp add: js_index_def GENE_KEY_WHEEL_def)
  then show ?thesis using d n i by blast
qed

text \<open>
  C4. \<open>getAllGeneKeySegments\<close> returns 64 segments in index order 0..63, carrying the
  wheel's Gene Keys in table order; segment \<open>i\<close> starts at \<open>i * 5.625\<close>, every width
  is exactly \<open>5.625\<close> (45/8), each segment ends where the next one starts, the first
  starts at 0 and the last ends at 360; and \<open>GENE_KEY_WHEEL\<close> holds every number of
  1..64 exactly once. The table is a constant of the module: no function takes it as a
  state or returns a changed one.
\<close>

theorem wheel_well_formed:
  "length getAllGeneKeySegments = 64 \<and>
   map seg_index getAllGeneKeySegments = [0..<64] \<and>
   map seg_geneKey getAllGeneKeySegments = GENE_KEY_WHEEL \<and>
   map seg_start getAllGeneKeySegments = map (\<lambda>i. of_nat i * (45 / 8)) [0..<64] \<and>
   map (\<lambda>s. seg_end s - seg_start s) getAllGeneKeySegments = replicate 64 (45 / 8) \<and>
   map seg_end (butlast getAllGeneKeySegments) = map seg_start (tl getAllGeneKeySegments) \<and>
   seg_start (hd getAllGeneKeySegments) = 0 \<and>
   seg_end (last getAllGeneKeySegments) = 360 \<and>
   distinct GENE_KEY_WHEEL \<and> set GENE_KEY_WHEEL = {1..64}"
proof -
  let ?mk = "\<lambda>(i, k). \<lparr>seg_geneKey = k, seg_start = of_nat i * (45 / 8),
                      seg_end = of_nat (Suc i) * (45 / 8), seg_index = i\<rparr>"
  have len: "length getAllGeneKeySegments = 64"
    by (simp add: segments_closed_form wheel_length)
  have idx: "map seg_index getAllGeneKeySegments = [0..<64]"
    by (simp add: segments_closed_form GENE_KEY_WHEEL_def upt_rec)
  have key: "map seg_geneKey getAllGeneKeySegments = GENE_KEY_WHEEL"
    by (simp add: segments_closed_form GENE_KEY_WHEEL_def)
  have st: "map seg_start getAllGeneKeySegments = map (\<lambda>i. of_nat i * (45 / 8)) [0..<64]"
    by (simp add: segments_closed_form GENE_KEY_WHEEL_def upt_rec)
  have "map (\<lambda>s. seg_end s - seg_start s) getAllGeneKeySegments
          = map (\<lambda>p. 45 / 8) (enumerate 0 GENE_KEY_WHEEL)"
    by (simp add: segments_closed_form case_prod_beta algebra_simps)
  then have wd: "map (\<lambda>s. seg_end s - seg_start s) getAllGeneKeySegments = replicate 64 (45 / 8)"
    by (simp add: map_replicate_const wheel_length)
  have ct: "map seg_end (butlast getAllGeneKeySegments) = map seg_start (tl getAllGeneKeySegments)"
    by (simp add: segments_closed_form GENE_KEY_WHEEL_def)
  have h: "seg_start (hd getAllGeneKeySegments) = 0"
    by (simp add: segments_closed_form GENE_KEY_WHEEL_def)
  have l: "seg_end (last getAllGeneKeySegments) = 360"
    by (simp add: segments_closed_form GENE_KEY_WHEEL_def)
  show ?thesis using len idx key st wd ct h l wheel_distinct wheel_set by blast
qed

text \<open>
  C9. For every Gene Key number outside 1..64 (none of which is in the table),
  \<open>getGeneKeyDegreeRange\<close> throws \<open>Error('Invalid Gene Key number')\<close>; it returns no
  default range.
\<close>

theorem range_unknown_key_fails:
  "g \<notin> {1..64} \<Longrightarrow> getGeneKeyDegreeRange g = Inl (Error ''Invalid Gene Key number'')"
  by (simp add: getGeneKeyDegreeRange_def indexOf_absent wheel_set)

theorem range_unknown_key_fails_witness:
  "(0::int) \<notin> {1..64} \<and> getGeneKeyDegreeRange 0 = Inl (Error ''Invalid Gene Key number'') \<and>
   (65::int) \<notin> {1..64} \<and> getGeneKeyDegreeRange 65 = Inl (Error ''Invalid Gene Key number'')"
  using range_unknown_key_fails[of 0] range_unknown_key_fails[of 65] by simp

section \<open>Claims about the zodiac sign\<close>

text \<open>
  C10. As stated, the claim fails for the fifteen negative doubles nearest to zero: for
  \<open>-2^-1074\<close> (the smallest one, \<open>-5e-324\<close>) the quotient \<open>longitude / 30\<close>
  underflows to zero, the index is 0 and the function returns \<open>Aries\<close>.
\<close>

theorem getZodiacSign_tiny_negative:
  "is_double (- (1 / 2 ^ 1074)) \<and> - (1 / 2 ^ 1074) < (0::rat) \<and>
   getZodiacSign (- (1 / 2 ^ 1074)) = Some ''Aries''"
proof -
  have d: "is_double (- (1 / 2 ^ 1074))" using dyadic_double[of "- 1" 1074] by simp
  have "rnd (- (1 / 2 ^ 1074) / 30) = 0" by (rule rnd_underflow) simp_all
  then have "getZodiacSign (- (1 / 2 ^ 1074)) = Some ''Aries''"
    unfolding getZodiacSign_def js_div_def Math_floor_def
    by (simp add: js_index_def signs_def)
  then show ?thesis using d by simp
qed

text \<open>
  C10, as the code has it: \<open>getZodiacSign\<close> does not normalise its argument. For a
  double \<open>x\<close> it returns \<open>undefined\<close> exactly when \<open>x \<ge> 360\<close> or
  \<open>x < -15 * 2^-1074\<close>; so every longitude from 360 on and every negative longitude
  whose quotient by 30 does not round to zero gets no sign, and every longitude in
  \<open>[0,360)\<close> gets one of the twelve names.
\<close>

theorem getZodiacSign_undefined_iff:
  assumes "is_double x"
  shows "getZodiacSign x = None \<longleftrightarrow> 360 \<le> x \<or> x < - (15 / 2 ^ 1074)"
proof -
  consider (hi) "360 \<le> x" | (neg) "x < - (15 / 2 ^ 1074)"
    | (tiny) "- (15 / 2 ^ 1074) \<le> x" "x < 0" | (mid) "0 \<le> x" "x < 360"
    by linarith
  then show ?thesis
  proof cases
    case hi
    have d12: "is_double 12" using int_double[of 12] by simp
    have "12 \<le> x / 30" using hi by simp
    then have "12 \<le> rnd (x / 30)" using d12 by (intro double_le_rnd) simp_all
    then have "12 \<le> \<lfloor>rnd (x / 30)\<rfloor>" by (simp add: le_floor_iff)
    then show ?thesis using hi
      by (simp add: getZodiacSign_def js_index_def js_div_def Math_floor_def signs_def)
  next
    case neg
    have "x / 30 < - (15 / 2 ^ 1074) / 30" using neg by (simp add: divide_strict_right_mono)
    also have "\<dots> = - (1 / 2 ^ 1075)" by simp
    finally have "rnd (x / 30) < 0" by (rule rnd_negative)
    then have "\<lfloor>rnd (x / 30)\<rfloor> < 0" by (simp add: floor_less_iff)
    then show ?thesis using neg
      by (simp add: getZodiacSign_def js_index_def js_div_def Math_floor_def)
  next
    case tiny
    have "- (15 / 2 ^ 1074) / 30 \<le> x / 30" using tiny(1) by (simp add: divide_right_mono)
    moreover have "- (15 / 2 ^ 1074) / 30 = - (1 / 2 ^ 1075 :: rat)" by simp
    ultimately have "- (1 / 2 ^ 1075) \<le> x / 30" by simp
    moreover have "x / 30 \<le> 0" using tiny(2) by simp
    ultimately have "rnd (x / 30) = 0" by (rule rnd_underflow)
    then show ?thesis using tiny
      by (simp add: getZodiacSign_def js_index_def js_div_def Math_floor_def signs_def)
  next
    case mid
    have "0 \<le> rnd (x / 30)" using mid(1) by (intro rnd_nonneg) simp
    then have a: "0 \<le> \<lfloor>rnd (x / 30)\<rfloor>" by simp
    have "rnd (x / 30) < 12" using zodiac_index_below_12[OF assms mid] .
    then have b: "\<lfloor>rnd (x / 30)\<rfloor> < 12" by (simp add: floor_less_iff)
    show ?thesis using a b mid
      by (simp add: getZodiacSign_def js_index_def js_div_def Math_floor_def signs_def)
  qed
qed

theorem getZodiacSign_undefined_iff_witness:
  "is_double 360 \<and> getZodiacSign 360 = None \<and>
   is_double (- 10) \<and> getZodiacSign (- 10) = None \<and>
   is_double 0 \<and> getZodiacSign 0 \<noteq> None"
proof -
  have a: "is_double 360" using int_double[of 360] by simp
  have b: "is_double (- 10)" using int_double[of "- 10"] by simp
  have c: "is_double 0" using int_double[of 0] by simp
  show ?thesis
    using a b c getZodiacSign_undefined_iff[OF a] getZodiacSign_undefined_iff[OF b]
      getZodiacSign_undefined_iff[OF c]
    by simp
qed

section \<open>Claims about civil time and the pipeline\<close>

text \<open>
  C5. The claim is that \<open>convertLocalToUTC\<close> answers which UTC instant has the given
  wall clock in the time zone. The code subtracts the offset with the wrong sign: on a
  host in UTC, for 12:00 on 2000-01-01 in New York (UTC-5) it returns 07:00Z, an instant
  whose wall clock in New York is 02:00, ten hours before the one asked for; the instant
  with wall clock 12:00 is 17:00Z. For 12:00 on 2000-07-01 (UTC-4) it returns 08:00Z
  where 16:00Z has that wall clock.
\<close>

theorem convertLocalToUTC_wrong_direction:
  "convertLocalToUTC example_env ''2000-01-01'' ''12:00'' ''America/New_York''
     = Inr (Some 946710000000) \<and>
   Date_UTC (Num 2000) (Num 0) (Num 1) (Num 12) (Num 0) (Num 0) = Some 946728000000 \<and>
   946710000000 + new_york_2000 946710000000 = 946728000000 - 36000000 \<and>
   946746000000 + new_york_2000 946746000000 = 946728000000 \<and>
   convertLocalToUTC example_env ''2000-07-01'' ''12:00'' ''America/New_York''
     = Inr (Some 962438400000) \<and>
   962467200000 + new_york_2000 962467200000 = 962452800000"
  using convert_new_york_2000 Date_UTC_2000_01_01 convert_new_york_summer_2000
  by (simp add: new_york_2000_def)




text \<open>
  C7. The claim is that every malformed input is answered \<open>invalid\<close>. \<open>Number('')\<close> is 0,
  so the time \<open>":"\<close>, which has no hour and no minute, passes the format check and the
  range checks, and the function answers \<open>valid\<close>.
\<close>

theorem validateDateTime_accepts_malformed_time:
  "validateDateTime example_env (Some ''2023-02-15'') (Some '':'')
     = \<lparr>valid = True, error = None\<rparr>"
proof -
  have n: "Number ''2023'' = Num 2023" "Number ''02'' = Num 2" "Number ''15'' = Num 15"
    "Number [] = Num 0"
    by (simp_all add: Number_simps)
  have l: "Date_local example_env (Num 2023) (Num 1) (Num 15) (Num 0) (Num 0)
             = Some 1676419200000"
    by (simp add: Date_local_def MakeDate_def MakeDay_def MakeTime_def MakeFullYear_def
        ToIntegerFinite_def trunc_rat_def TimeClip_def msPerDay_def days_2023_02_01
        example_env_def Let_def)
  have m: "getMonth example_env 1676419200000 = 1"
    by (simp add: getMonth_def MonthFromTime_def Day_def msPerDay_def example_env_def civil_19403)
  show ?thesis
    by (simp add: validateDateTime_def Let_def js_index_def falsy_def isNaN_def ToNumber_def
        n l m)
qed

text \<open>
  C8. As stated, the claim fails in its number. The route of routes/api.js reads
  2000-01-01 12:00 as the instant 946728000000 (2000-01-01T12:00Z). On a host whose
  local time zone is UTC, and with the doubles nearest to the sines for \<open>Math.sin\<close>, the
  formula computes in doubles the longitude 280.3756801972372, more than 0.42 away from
  280.8.
\<close>

theorem sun_longitude_j2000_not_280_8:
  "birthDate ''2000-01-01'' ''12:00'' = Some 946728000000 \<and>
   hostOffset example_env = 0 \<and>
   calculateSunLongitude example_env 946728000000 = 616552641044935 / 2 ^ 41 \<and>
   calculateSunLongitude example_env 946728000000 < 280.376 \<and>
   \<not> \<bar>calculateSunLongitude example_env 946728000000 - 280.8\<bar> < 0.42"
proof -
  have h: "hostOffset example_env = 0" by (simp add: example_env_def)
  show ?thesis unfolding example_longitude using birthDate_j2000 h by simp
qed

text \<open>
  C8, as the code has it: \<open>calculateSunLongitude\<close> reads the date through the local
  getters, so its result belongs to the wall clock of the host (the instant shifted by
  the offset of the host, \<open>calculateSunLongitude_host\<close>). On a host whose local time zone
  is UTC, and for every \<open>Math.sin\<close> that is accurate to 0.0001 at the two arguments the
  formula passes to it, the longitude computed in doubles for that input lies between
  280.375 and 280.376, and \<open>getZodiacSign\<close>, which takes the sign at index
  \<open>floor(longitude / 30)\<close> of the list starting with Aries, answers Capricorn.
\<close>

theorem sun_longitude_j2000:
  assumes "hostOffset e = 0"
    and "sin_accurate e gRad_j2000"
    and "sin_accurate e (js_mul 2 gRad_j2000)"
  shows "birthDate ''2000-01-01'' ''12:00'' = Some 946728000000 \<and>
     280.375 < calculateSunLongitude e 946728000000 \<and>
     calculateSunLongitude e 946728000000 < 280.376 \<and>
     getZodiacSign (calculateSunLongitude e 946728000000) = Some ''Capricorn''"
proof -
  define s1 where "s1 = Math_sin e (109775958116633 / 2 ^ 44)"
  define s2 where "s2 = Math_sin e (109775958116633 / 2 ^ 43)"
  define lam where "lam = js_rem (js_add (js_add (4933904498016911 / 2 ^ 44)
                (js_mul (2156098321603625 / 2 ^ 50) s1))
             (js_mul (5764607523034235 / 2 ^ 58) s2)) 360"
  have a1: "sin_accurate e (109775958116633 / 2 ^ 44)"
    using assms(2) unfolding gRad_j2000_eq .
  have a2: "sin_accurate e (109775958116633 / 2 ^ 43)"
    using assms(3) unfolding gRad_j2000_eq twice_gRad .
  have r1: "real_of_rat (109775958116633 / 2 ^ 44) = 109775958116633 / 2 ^ 44"
    and r2: "real_of_rat (109775958116633 / 2 ^ 43) = 109775958116633 / 2 ^ 43"
    by (simp_all add: of_rat_divide of_rat_power)
  have "- 0.04315 - 1 / 10 ^ 4 \<le> real_of_rat s1" "real_of_rat s1 \<le> - 0.04312 + 1 / 10 ^ 4"
    unfolding s1_def
    using sin_accurate_bounds[OF a1, of "- 0.04315" "- 0.04312"] sin_mean_anomaly_j2000
    unfolding r1 by blast+
  then have "real_of_rat (- (4325 / 100000)) \<le> real_of_rat s1"
    "real_of_rat s1 \<le> real_of_rat (- (4302 / 100000))"
    by (simp_all add: of_rat_divide of_rat_minus)
  then have s1: "- (4325 / 100000) \<le> s1" "s1 \<le> - (4302 / 100000)"
    by (simp_all only: of_rat_less_eq)
  have "- 0.08622 - 1 / 10 ^ 4 \<le> real_of_rat s2" "real_of_rat s2 \<le> - 0.08617 + 1 / 10 ^ 4"
    unfolding s2_def
    using sin_accurate_bounds[OF a2, of "- 0.08622" "- 0.08617"] sin_twice_mean_anomaly_j2000
    unfolding r2 by blast+
  then have "real_of_rat (- (8632 / 100000)) \<le> real_of_rat s2"
    "real_of_rat s2 \<le> real_of_rat (- (8607 / 100000))"
    by (simp_all add: of_rat_divide of_rat_minus)
  then have s2: "- (8632 / 100000) \<le> s2" "s2 \<le> - (8607 / 100000)"
    by (simp_all only: of_rat_less_eq)
  have b: "293994966 / 2 ^ 20 \<le> lam" "lam \<le> 293995435 / 2 ^ 20"
    unfolding lam_def by (rule longitude_j2000_bounds[OF s1 s2])+
  have c: "calculateSunLongitude e 946728000000 = lam"
    unfolding calculateSunLongitude_j2000[OF assms(1)] lam_def[symmetric] s1_def[symmetric]
      s2_def[symmetric] Let_def
    using b(1) by simp
  have "280.375 < lam" "lam < 280.376" using b by simp_all
  moreover have "getZodiacSign lam = Some ''Capricorn''"
    using b by (intro zodiac_capricorn) simp_all
  ultimately show ?thesis unfolding c using birthDate_j2000 by simp
qed

theorem sun_longitude_j2000_witness:
  "hostOffset example_env = 0 \<and>
   sin_accurate example_env gRad_j2000 \<and>
   sin_accurate example_env (js_mul 2 gRad_j2000) \<and>
   280.375 < calculateSunLongitude example_env 946728000000 \<and>
   calculateSunLongitude example_env 946728000000 < 280.376 \<and>
   getZodiacSign (calculateSunLongitude example_env 946728000000) = Some ''Capricorn''"
proof -
  have h: "hostOffset example_env = 0" by (simp add: example_env_def)
  have r: "real_of_rat (109775958116633 / 2 ^ 44) = 109775958116633 / 2 ^ 44"
    "real_of_rat (109775958116633 / 2 ^ 43) = 109775958116633 / 2 ^ 43"
    "real_of_rat (- (6215854530937775 / 2 ^ 57)) = - (6215854530937775 / 2 ^ 57)"
    "real_of_rat (- (194064692912115 / 2 ^ 51)) = - (194064692912115 / 2 ^ 51)"
    by (simp_all add: of_rat_divide of_rat_power of_rat_minus)
  have t: "- 0.04315 \<le> - (6215854530937775 / 2 ^ 57 :: real)"
    "- (6215854530937775 / 2 ^ 57 :: real) \<le> - 0.04312"
    "- 0.08622 \<le> - (194064692912115 / 2 ^ 51 :: real)"
    "- (194064692912115 / 2 ^ 51 :: real) \<le> - 0.08617"
    by simp_all
  have "\<bar>- (6215854530937775 / 2 ^ 57) - sin (109775958116633 / 2 ^ 44 :: real)\<bar> \<le> 1 / 10 ^ 4"
    by (rule abs_diff_le[OF sin_mean_anomaly_j2000 t(1,2)]) simp
  then have a1: "sin_accurate example_env gRad_j2000"
    unfolding sin_accurate_def gRad_j2000_eq example_sines r .
  have "\<bar>- (194064692912115 / 2 ^ 51) - sin (109775958116633 / 2 ^ 43 :: real)\<bar> \<le> 1 / 10 ^ 4"
    by (rule abs_diff_le[OF sin_twice_mean_anomaly_j2000 t(3,4)]) simp
  then have a2: "sin_accurate example_env (js_mul 2 gRad_j2000)"
    unfolding sin_accurate_def gRad_j2000_eq twice_gRad example_sines r .
  show ?thesis using h a1 a2 sun_longitude_j2000[OF h a1 a2] by (simp only: simp_thms)
qed

end
